theory Spec2Isabelle
  imports Main "HOL-Library.Char_ord" "HOL-Library.List_Lexorder"
begin

section \<open>Strings of the source language\<close>

text \<open>
  Python strings are modelled as \<open>string\<close> (lists of 8-bit characters, read as code
  points below 256). \<open>isspace\<close> is \<^verbatim>\<open>str.isspace\<close> on one character, which is also
  the class \<^verbatim>\<open>\s\<close> of \<^verbatim>\<open>re\<close> on \<^verbatim>\<open>str\<close> patterns and what \<^verbatim>\<open>str.strip()\<close> removes:
  TAB, LF, VT, FF, CR, the separators 0x1C..0x1F, SPACE, NEL (0x85) and NBSP (0xA0).
\<close>

definition isspace :: "char \<Rightarrow> bool" where
  "isspace c = (c = CHR 0x09 \<or> c = CHR 0x0A \<or> c = CHR 0x0B \<or> c = CHR 0x0C \<or> c = CHR 0x0D
     \<or> c = CHR 0x1C \<or> c = CHR 0x1D \<or> c = CHR 0x1E \<or> c = CHR 0x1F \<or> c = CHR 0x20
     \<or> c = CHR 0x85 \<or> c = CHR 0xA0)"

text \<open>\<^verbatim>\<open>s.strip()\<close>: leading and trailing whitespace removed.\<close>

definition strip :: "string \<Rightarrow> string" where
  "strip s = rev (dropWhile isspace (rev (dropWhile isspace s)))"

text \<open>\<^verbatim>\<open>re.match(r'\s*', s).group(0)\<close>: the leading whitespace of \<open>s\<close>.\<close>

definition leading_ws :: "string \<Rightarrow> string" where
  "leading_ws s = takeWhile isspace s"

text \<open>\<^verbatim>\<open>s[i:j]\<close> for \<open>0 \<le> i\<close>, \<open>0 \<le> j\<close>: Python slices clamp to the string, they never raise.\<close>

definition slice :: "'a list \<Rightarrow> nat \<Rightarrow> nat \<Rightarrow> 'a list" where
  "slice s i j = take (j - i) (drop i s)"

text \<open>
  \<^verbatim>\<open>pattern.finditer(s)\<close> / \<^verbatim>\<open>pattern.findall(s)\<close> for a pattern given by its matcher at
  a position: \<open>m\<close> applied to the rest of the string at the current position returns the
  captured group and the length of the match, or \<open>None\<close>. The scan goes left to right; after
  a match it resumes at the end of the match, otherwise one character further.
\<close>

function re_finditer :: "(string \<Rightarrow> ('g \<times> nat) option) \<Rightarrow> string \<Rightarrow> 'g list" where
  "re_finditer m s =
     (case s of
        [] \<Rightarrow> []
      | c # r \<Rightarrow>
          (case m s of
             None \<Rightarrow> re_finditer m r
           | Some (g, k) \<Rightarrow> g # re_finditer m (drop (k - 1) r)))"
  by pat_completeness auto
termination
  by (relation "measure (\<lambda>(m, s). length s)") auto

section \<open>The pruner: comment blanking\<close>

text \<open>
  \<^verbatim>\<open>comment_re = re.compile(r'/\*[\s\S]*?\*/')\<close> and
  \<^verbatim>\<open>css_nocomments = comment_re.sub(lambda m: ' ' * (m.end()-m.start()), css_text)\<close>.
  \<open>find_close r\<close> is the offset in \<open>r\<close> of the first \<^verbatim>\<open>*/\<close> (the lazy \<^verbatim>\<open>[\s\S]*?\<close> stops at
  the first one).
\<close>

fun find_close :: "string \<Rightarrow> nat option" where
  "find_close (c1 # c2 # r) =
     (if c1 = CHR ''*'' \<and> c2 = CHR ''/'' then Some 0
      else map_option Suc (find_close (c2 # r)))"
| "find_close _ = None"

function blank_comments :: "string \<Rightarrow> string" where
  "blank_comments s =
     (case s of
        c1 # c2 # r \<Rightarrow>
          (if c1 = CHR ''/'' \<and> c2 = CHR ''*'' then
             (case find_close r of
                Some q \<Rightarrow> replicate (q + 4) CHR '' '' @ blank_comments (drop (q + 2) r)
              | None \<Rightarrow> c1 # blank_comments (c2 # r))
           else c1 # blank_comments (c2 # r))
      | _ \<Rightarrow> s)"
  by pat_completeness auto
termination
  by (relation "measure length") auto

section \<open>The pruner: selector splitting\<close>

text \<open>
  \<^verbatim>\<open>split_selectors\<close> (prune_css.py, lines 59-97). The index \<open>i\<close> of the source is the
  position of the remaining input; \<open>in_str\<close> is \<open>None\<close> or the active quote; the depth
  counters are Python integers floored at zero by \<^verbatim>\<open>max(0, d-1)\<close>.
\<close>

fun split_loop ::
  "char option \<Rightarrow> int \<Rightarrow> int \<Rightarrow> string \<Rightarrow> string list \<Rightarrow> string \<Rightarrow> string list \<times> string" where
  "split_loop in_str depth_paren depth_bracket buf parts [] = (parts, buf)"
| "split_loop (Some q) depth_paren depth_bracket buf parts (ch # rest) =
     (if ch = q then split_loop None depth_paren depth_bracket (buf @ [ch]) parts rest
      else if ch = CHR 0x5C then
        (case rest of
           [] \<Rightarrow> split_loop (Some q) depth_paren depth_bracket (buf @ [ch]) parts []
         | e # rest' \<Rightarrow> split_loop (Some q) depth_paren depth_bracket (buf @ [ch, e]) parts rest')
      else split_loop (Some q) depth_paren depth_bracket (buf @ [ch]) parts rest)"
| "split_loop None depth_paren depth_bracket buf parts (ch # rest) =
     (if ch = CHR 0x22 \<or> ch = CHR 0x27 then
        split_loop (Some ch) depth_paren depth_bracket (buf @ [ch]) parts rest
      else
        (let depth_paren' =
               (if ch = CHR ''('' then depth_paren + 1
                else if ch = CHR '')'' then max 0 (depth_paren - 1)
                else depth_paren);
             depth_bracket' =
               (if ch = CHR ''('' \<or> ch = CHR '')'' then depth_bracket
                else if ch = CHR ''['' then depth_bracket + 1
                else if ch = CHR '']'' then max 0 (depth_bracket - 1)
                else depth_bracket)
         in if ch = CHR '','' \<and> depth_paren' = 0 \<and> depth_bracket' = 0
            then split_loop None depth_paren' depth_bracket' [] (parts @ [strip buf]) rest
            else split_loop None depth_paren' depth_bracket' (buf @ [ch]) parts rest))"

definition split_selectors :: "string \<Rightarrow> string list" where
  "split_selectors prelude =
     (case split_loop None 0 0 [] [] prelude of
        (parts, buf) \<Rightarrow>
          filter (\<lambda>p. p \<noteq> []) (if buf \<noteq> [] then parts @ [strip buf] else parts))"

section \<open>The pruner: class tokens of a selector\<close>

text \<open>
  \<^verbatim>\<open>class_in_sel_re = re.compile(r'\.(-?[_a-zA-Z]+[_a-zA-Z0-9-]*)')\<close>. At a position
  the pattern matches a dot, an optional hyphen, one character of \<^verbatim>\<open>[_a-zA-Z]\<close> and then the
  longest run of \<^verbatim>\<open>[_a-zA-Z0-9-]\<close>; nothing follows the greedy run, so there is no
  backtracking into it.
\<close>

definition is_ident_start :: "char \<Rightarrow> bool" where
  "is_ident_start c =
     (c = CHR ''_'' \<or> (CHR ''a'' \<le> c \<and> c \<le> CHR ''z'') \<or> (CHR ''A'' \<le> c \<and> c \<le> CHR ''Z''))"

definition is_ident_char :: "char \<Rightarrow> bool" where
  "is_ident_char c =
     (is_ident_start c \<or> (CHR ''0'' \<le> c \<and> c \<le> CHR ''9'') \<or> c = CHR ''-'')"

definition match_class_in_sel :: "string \<Rightarrow> (string \<times> nat) option" where
  "match_class_in_sel s =
     (case s of
        [] \<Rightarrow> None
      | c # r \<Rightarrow>
          if c \<noteq> CHR ''.'' then None
          else
            (let h = (case r of d # _ \<Rightarrow> if d = CHR ''-'' then [d] else [] | [] \<Rightarrow> []);
                 r1 = drop (length h) r
             in case r1 of
                  [] \<Rightarrow> None
                | a # _ \<Rightarrow>
                    if is_ident_start a
                    then (let tok = h @ takeWhile is_ident_char r1 in Some (tok, 1 + length tok))
                    else None))"

definition class_in_sel_findall :: "string \<Rightarrow> string list" where
  "class_in_sel_findall sel = re_finditer match_class_in_sel sel"

section \<open>The pruner: rule segmentation and the keep/remove decision\<close>

text \<open>
  An entry of \<^verbatim>\<open>removed_rules\<close>: the dictionary with the keys \<^verbatim>\<open>'selectors'\<close> and
  \<^verbatim>\<open>'class_tokens'\<close> of line 169.
\<close>

record removed_rule =
  rule_selectors :: "string list"
  rule_class_tokens :: "string list"

record scan_state =
  pos :: nat
  out :: "string list"
  kept_count :: nat
  removed_count :: nat
  removed_rules :: "removed_rule list"

datatype outcome = Continue scan_state | Break scan_state

datatype py_error = IndexError

text \<open>\<^verbatim>\<open>while j < n and P(s[j]): j += 1\<close>, the forward scans of lines 117 and 131.\<close>

function scan_while :: "(char \<Rightarrow> bool) \<Rightarrow> string \<Rightarrow> nat \<Rightarrow> nat" where
  "scan_while P s j = (if j < length s \<and> P (s ! j) then scan_while P s (Suc j) else j)"
  by pat_completeness auto
termination
  by (relation "measure (\<lambda>(P, s, j). length s - j)") auto

text \<open>The brace-depth scan of the body, lines 141-146.\<close>

function scan_body :: "string \<Rightarrow> nat \<Rightarrow> int \<Rightarrow> nat" where
  "scan_body s k depth =
     (if k < length s \<and> depth > 0 then
        scan_body s (Suc k)
          (if s ! k = CHR ''{'' then depth + 1
           else if s ! k = CHR ''}'' then depth - 1
           else depth)
      else k)"
  by pat_completeness auto
termination
  by (relation "measure (\<lambda>(s, k, depth). length s - k)") auto

text \<open>
  The loop over the selectors of one rule, lines 151-160; the accumulator is
  \<open>(class_tokens, any_used, any_class)\<close>.
\<close>

fun classify ::
  "string set \<Rightarrow> string list \<Rightarrow> string list \<times> bool \<times> bool \<Rightarrow> string list \<times> bool \<times> bool" where
  "classify used_classes [] acc = acc"
| "classify used_classes (sel # sels) (class_tokens, any_used, any_class) =
     (let tokens = class_in_sel_findall sel
      in if tokens \<noteq> [] then
           classify used_classes sels
             (class_tokens @ tokens,
              (if list_ex (\<lambda>t. t \<in> used_classes) tokens then True else any_used),
              True)
         else classify used_classes sels (class_tokens, any_used, any_class))"

text \<open>
  One iteration of the main loop, lines 105-171, entered with \<open>pos s < n\<close>, in three
  parts: the at-rule branch (lines 116-129), the rule branch (lines 130-171) and the
  dispatch on the current character. The reads of \<open>css_nocomments\<close> are guarded by
  \<open>j < n\<close> as in the source; the only unguarded read is \<^verbatim>\<open>css_text[i]\<close> of line 112,
  which raises \<^verbatim>\<open>IndexError\<close> when out of range.
  \<^verbatim>\<open>sorted(set(class_tokens))\<close> is \<open>sort (remdups class_tokens)\<close>, strings being ordered
  lexicographically by code point.
\<close>

definition at_rule_step :: "string \<Rightarrow> string \<Rightarrow> scan_state \<Rightarrow> outcome" where
  "at_rule_step css_text css_nocomments s =
     (let i = pos s; n = length css_nocomments;
          j = scan_while (\<lambda>c. c \<noteq> CHR ''{'' \<and> c \<noteq> CHR '';'') css_nocomments i in
      if j < n \<and> css_nocomments ! j = CHR '';'' then
        Continue (s\<lparr>out := out s @ [slice css_text i (j + 1)], pos := j + 1\<rparr>)
      else if j < n \<and> css_nocomments ! j = CHR ''{'' then
        Continue (s\<lparr>out := out s @ [slice css_text i (j + 1)], pos := j + 1\<rparr>)
      else
        Continue (s\<lparr>out := out s @ [slice css_text i j], pos := j\<rparr>))"

definition rule_step :: "string set \<Rightarrow> string \<Rightarrow> string \<Rightarrow> scan_state \<Rightarrow> outcome" where
  "rule_step used_classes css_text css_nocomments s =
     (let i = pos s; n = length css_nocomments;
          j = scan_while (\<lambda>c. c \<noteq> CHR ''{'') css_nocomments i in
      if j \<ge> n then Break (s\<lparr>out := out s @ [drop i css_text]\<rparr>)
      else
        (let prelude_src = slice css_text i j;
             prelude_ws = leading_ws prelude_src;
             prelude = strip prelude_src;
             block_end = scan_body css_nocomments (j + 1) 1;
             body = slice css_text j block_end;
             selectors = split_selectors prelude
         in case classify used_classes selectors ([], False, False) of
              (class_tokens, any_used, any_class) \<Rightarrow>
                if \<not> any_class then
                  Continue (s\<lparr>out := out s @ [prelude_ws @ prelude @ body],
                              kept_count := kept_count s + 1, pos := block_end\<rparr>)
                else if any_used then
                  Continue (s\<lparr>out := out s @ [prelude_ws @ prelude @ body],
                              kept_count := kept_count s + 1, pos := block_end\<rparr>)
                else
                  Continue (s\<lparr>removed_rules := removed_rules s @
                                [\<lparr>rule_selectors = selectors,
                                  rule_class_tokens = sort (remdups class_tokens)\<rparr>],
                              removed_count := removed_count s + 1,
                              pos := block_end\<rparr>)))"

definition scan_step :: "string set \<Rightarrow> string \<Rightarrow> string \<Rightarrow> scan_state \<Rightarrow> py_error + outcome" where
  "scan_step used_classes css_text css_nocomments s =
     (let i = pos s; ch = css_nocomments ! i in
      if ch = CHR ''}'' then
        Inr (Continue (s\<lparr>out := out s @ [''}''], pos := i + 1\<rparr>))
      else if isspace ch then
        (if i < length css_text
         then Inr (Continue (s\<lparr>out := out s @ [[css_text ! i]], pos := i + 1\<rparr>))
         else Inl IndexError)
      else if ch = CHR ''@'' then Inr (at_rule_step css_text css_nocomments s)
      else Inr (rule_step used_classes css_text css_nocomments s))"

section \<open>The main loop\<close>

text \<open>
  The recursive equations of the scanning functions are unfolded by hand
  (\<open>subst\<close>), never by the simplifier.
\<close>

declare scan_while.simps [simp del]
declare scan_body.simps [simp del]
declare blank_comments.simps [simp del]
declare re_finditer.simps [simp del]

lemma scan_while_ge: "j \<le> scan_while P s j"
  by (induction P s j rule: scan_while.induct) (subst scan_while.simps, auto)

lemma scan_while_le: "j \<le> length s \<Longrightarrow> scan_while P s j \<le> length s"
  by (induction P s j rule: scan_while.induct) (subst scan_while.simps, auto)

lemma scan_while_step: "j < length s \<Longrightarrow> P (s ! j) \<Longrightarrow> j < scan_while P s j"
  using scan_while_ge [of "Suc j" P s] by (subst scan_while.simps) simp

lemma scan_body_ge: "k \<le> scan_body s k d"
  by (induction s k d rule: scan_body.induct) (subst scan_body.simps, auto)

lemma scan_body_le: "k \<le> length s \<Longrightarrow> scan_body s k d \<le> length s"
  by (induction s k d rule: scan_body.induct) (subst scan_body.simps, auto)

lemma at_rule_step_advances:
  assumes "pos s < length css_nocomments" and "css_nocomments ! pos s = CHR ''@''"
    and "at_rule_step css_text css_nocomments s = Continue s'"
  shows "pos s < pos s' \<and> pos s' \<le> length css_nocomments"
proof -
  let ?j = "scan_while (\<lambda>c. c \<noteq> CHR ''{'' \<and> c \<noteq> CHR '';'') css_nocomments (pos s)"
  have 1: "pos s < ?j" using assms(1,2) by (intro scan_while_step) simp_all
  have 2: "?j \<le> length css_nocomments" using assms(1) by (intro scan_while_le) simp
  from assms(3) have "pos s' = ?j + 1 \<and> ?j < length css_nocomments \<or> pos s' = ?j"
    by (auto simp: at_rule_step_def Let_def split: if_splits)
  with 1 2 show ?thesis by auto
qed

lemma rule_step_advances:
  assumes "pos s < length css_nocomments"
    and "rule_step used_classes css_text css_nocomments s = Continue s'"
  shows "pos s < pos s' \<and> pos s' \<le> length css_nocomments"
proof -
  let ?j = "scan_while (\<lambda>c. c \<noteq> CHR ''{'') css_nocomments (pos s)"
  let ?k = "scan_body css_nocomments (?j + 1) 1"
  have 1: "pos s \<le> ?j" by (rule scan_while_ge)
  from assms(2) have 2: "?j < length css_nocomments \<and> pos s' = ?k"
    by (auto simp: rule_step_def Let_def split: if_splits prod.splits)
  have 3: "?j + 1 \<le> ?k" by (rule scan_body_ge)
  have 4: "?k \<le> length css_nocomments" using 2 by (intro scan_body_le) simp
  from 1 2 3 4 show ?thesis by simp
qed

lemma scan_step_cases:
  obtains (brace) "css_nocomments ! pos s = CHR ''}''"
  | (space) "css_nocomments ! pos s \<noteq> CHR ''}''" "isspace (css_nocomments ! pos s)"
  | (at) "css_nocomments ! pos s \<noteq> CHR ''}''" "\<not> isspace (css_nocomments ! pos s)"
      "css_nocomments ! pos s = CHR ''@''"
  | (rule) "css_nocomments ! pos s \<noteq> CHR ''}''" "\<not> isspace (css_nocomments ! pos s)"
      "css_nocomments ! pos s \<noteq> CHR ''@''"
  by blast

lemma scan_step_advances:
  assumes "pos s < length css_nocomments"
    and "scan_step used_classes css_text css_nocomments s = Inr (Continue s')"
  shows "pos s < pos s' \<and> pos s' \<le> length css_nocomments"
proof (cases rule: scan_step_cases [of css_nocomments s])
  case brace
  with assms show ?thesis by (auto simp: scan_step_def Let_def)
next
  case space
  with assms show ?thesis by (auto simp: scan_step_def Let_def split: if_splits)
next
  case at
  with assms(2) have "at_rule_step css_text css_nocomments s = Continue s'"
    by (simp add: scan_step_def Let_def)
  with assms(1) at(3) show ?thesis by (rule at_rule_step_advances)
next
  case rule
  with assms(2) have "rule_step used_classes css_text css_nocomments s = Continue s'"
    by (simp add: scan_step_def Let_def)
  with assms(1) show ?thesis by (rule rule_step_advances)
qed

text \<open>
  The loop \<^verbatim>\<open>while i < n\<close> of line 105: \<^verbatim>\<open>continue\<close> and the fall-through of line 171
  go round again, \<^verbatim>\<open>break\<close> (line 135) leaves with the state as it is, an exception
  leaves with the error.
\<close>

function scan_loop :: "string set \<Rightarrow> string \<Rightarrow> string \<Rightarrow> scan_state \<Rightarrow> py_error + scan_state" where
  "scan_loop used_classes css_text css_nocomments s =
     (if pos s < length css_nocomments then
        (case scan_step used_classes css_text css_nocomments s of
           Inl e \<Rightarrow> Inl e
         | Inr (Continue s') \<Rightarrow> scan_loop used_classes css_text css_nocomments s'
         | Inr (Break s') \<Rightarrow> Inr s')
      else Inr s)"
  by pat_completeness auto
termination
proof (relation "measure (\<lambda>(used_classes, css_text, css_nocomments, s). length css_nocomments - pos s)")
  show "wf (measure (\<lambda>(used_classes, css_text, css_nocomments, s). length css_nocomments - pos s))"
    by simp
next
  fix used_classes css_text css_nocomments and s :: scan_state and x2 x1
  assume "pos s < length css_nocomments"
    and "scan_step used_classes css_text css_nocomments s = Inr x2" and "x2 = Continue x1"
  then have "pos s < pos x1"
    using scan_step_advances [of s css_nocomments used_classes css_text x1] by simp
  with \<open>pos s < length css_nocomments\<close>
  show "((used_classes, css_text, css_nocomments, x1), (used_classes, css_text, css_nocomments, s))
          \<in> measure (\<lambda>(used_classes, css_text, css_nocomments, s). length css_nocomments - pos s)"
    by simp
qed

declare scan_loop.simps [simp del]

text \<open>The number of times the body of the main loop is executed from state \<open>s\<close>.\<close>

function iterations :: "string set \<Rightarrow> string \<Rightarrow> string \<Rightarrow> scan_state \<Rightarrow> nat" where
  "iterations used_classes css_text css_nocomments s =
     (if pos s < length css_nocomments then
        (case scan_step used_classes css_text css_nocomments s of
           Inl e \<Rightarrow> 1
         | Inr (Continue s') \<Rightarrow> Suc (iterations used_classes css_text css_nocomments s')
         | Inr (Break s') \<Rightarrow> 1)
      else 0)"
  by pat_completeness auto
termination
proof (relation "measure (\<lambda>(used_classes, css_text, css_nocomments, s). length css_nocomments - pos s)")
  show "wf (measure (\<lambda>(used_classes, css_text, css_nocomments, s). length css_nocomments - pos s))"
    by simp
next
  fix used_classes css_text css_nocomments and s :: scan_state and x2 x1
  assume "pos s < length css_nocomments"
    and "scan_step used_classes css_text css_nocomments s = Inr x2" and "x2 = Continue x1"
  then have "pos s < pos x1"
    using scan_step_advances [of s css_nocomments used_classes css_text x1] by simp
  with \<open>pos s < length css_nocomments\<close>
  show "((used_classes, css_text, css_nocomments, x1), (used_classes, css_text, css_nocomments, s))
          \<in> measure (\<lambda>(used_classes, css_text, css_nocomments, s). length css_nocomments - pos s)"
    by simp
qed

declare iterations.simps [simp del]

text \<open>
  The script from line 53 on: the stylesheet is blanked, scanned from position 0 with
  empty output and counters, and the report is computed from the result (lines 173-183).
  Reading and writing the files is outside the model: the stylesheet's text and the set
  \<open>used_classes\<close> are the inputs, the pruned text and the report the outputs.
\<close>

definition initial_state :: scan_state where
  "initial_state = \<lparr>pos = 0, out = [], kept_count = 0, removed_count = 0, removed_rules = []\<rparr>"

record report =
  report_kept_rules :: nat
  report_removed_rules :: nat
  report_removed_details :: "removed_rule list"
  report_used_classes_count :: nat
  report_pruned_bytes :: int
  report_original_bytes :: int
  report_bytes_saved_estimate :: int

definition make_report :: "string set \<Rightarrow> string \<Rightarrow> scan_state \<Rightarrow> report" where
  "make_report used_classes css_text s =
     (let pruned_css = concat (out s) in
      \<lparr>report_kept_rules = kept_count s,
       report_removed_rules = removed_count s,
       report_removed_details = removed_rules s,
       report_used_classes_count = card used_classes,
       report_pruned_bytes = int (length pruned_css),
       report_original_bytes = int (length css_text),
       report_bytes_saved_estimate = int (length css_text) - int (length pruned_css)\<rparr>)"

definition prune_css :: "string set \<Rightarrow> string \<Rightarrow> py_error + (string \<times> report)" where
  "prune_css used_classes css_text =
     (case scan_loop used_classes css_text (blank_comments css_text) initial_state of
        Inl e \<Rightarrow> Inl e
      | Inr s \<Rightarrow> Inr (concat (out s), make_report used_classes css_text s))"

section \<open>Termination and absence of errors\<close>

lemma find_close_bound: "find_close r = Some q \<Longrightarrow> q + 2 \<le> length r"
  by (induction r arbitrary: q rule: find_close.induct) (auto split: if_splits)

lemma length_blank_comments: "length (blank_comments s) = length s"
proof (induction s rule: blank_comments.induct)
  case (1 s)
  show ?case
  proof (cases s)
    case Nil
    then show ?thesis by (subst blank_comments.simps) simp
  next
    case (Cons c1 t)
    note s = this
    show ?thesis
    proof (cases t)
      case Nil
      with s show ?thesis by (subst blank_comments.simps) simp
    next
      case (Cons c2 r)
      show ?thesis
      proof (cases "c1 = CHR ''/'' \<and> c2 = CHR ''*''")
        case False
        with 1 s Cons show ?thesis
          by (subst blank_comments.simps) auto
      next
        case True
        show ?thesis
        proof (cases "find_close r")
          case None
          with 1 True s Cons show ?thesis
            by (subst blank_comments.simps) auto
        next
          case (Some q)
          with 1 True s Cons find_close_bound [OF Some] show ?thesis
            by (subst blank_comments.simps) auto
        qed
      qed
    qed
  qed
qed

lemma scan_step_no_error:
  assumes "length css_text = length css_nocomments" and "pos s < length css_nocomments"
  shows "\<exists>r. scan_step used_classes css_text css_nocomments s = Inr r"
  using assms by (simp add: scan_step_def Let_def)

lemma scan_loop_no_error:
  assumes "length css_text = length css_nocomments"
  shows "\<exists>r. scan_loop used_classes css_text css_nocomments s = Inr r"
  using assms
proof (induction used_classes css_text css_nocomments s rule: scan_loop.induct)
  case (1 used_classes css_text css_nocomments s)
  show ?case
  proof (cases "pos s < length css_nocomments")
    case False
    then show ?thesis by (subst scan_loop.simps) simp
  next
    case True
    from scan_step_no_error [OF 1(2) True]
    obtain r where r: "scan_step used_classes css_text css_nocomments s = Inr r" by blast
    show ?thesis
    proof (cases r)
      case (Continue s')
      with 1(1) [OF True r Continue 1(2)] True r show ?thesis
        by (subst scan_loop.simps) simp
    next
      case (Break s')
      with True r show ?thesis by (subst scan_loop.simps) simp
    qed
  qed
qed

lemma iterations_bound:
  "iterations used_classes css_text css_nocomments s \<le> length css_nocomments - pos s"
proof (induction used_classes css_text css_nocomments s rule: iterations.induct)
  case (1 used_classes css_text css_nocomments s)
  show ?case
  proof (cases "pos s < length css_nocomments")
    case False
    then show ?thesis by (subst iterations.simps) simp
  next
    case True
    show ?thesis
    proof (cases "scan_step used_classes css_text css_nocomments s")
      case (Inl e)
      with True show ?thesis by (subst iterations.simps) simp
    next
      case (Inr r)
      show ?thesis
      proof (cases r)
        case (Continue s')
        from scan_step_advances [OF True Inr [unfolded Continue]]
        have "pos s < pos s'" "pos s' \<le> length css_nocomments" by simp_all
        with 1 [OF True Inr Continue] True Inr Continue show ?thesis
          by (subst iterations.simps) simp
      next
        case (Break s')
        with True Inr show ?thesis by (subst iterations.simps) simp
      qed
    qed
  qed
qed

text \<open>
  C10: the segmentation scanner terminates on every input. Every iteration that goes
  round the loop again (stray brace, whitespace, at-rule, rule) moves the position
  strictly forward and never past the end, so from a state \<open>s\<close> the body runs at most
  \<open>n - pos s\<close> times, at most \<open>len(css_text)\<close> times for the whole scan, and the script
  returns a result (no exception leaves the loop).
\<close>

theorem scan_terminates:
  "(pos s < length css_nocomments \<and>
      scan_step used_classes css_text css_nocomments s = Inr (Continue s')
      \<longrightarrow> pos s < pos s' \<and> pos s' \<le> length css_nocomments)
   \<and> iterations used_classes css_text css_nocomments s \<le> length css_nocomments - pos s
   \<and> iterations used_classes css_text (blank_comments css_text) initial_state \<le> length css_text
   \<and> (\<exists>r. prune_css used_classes css_text = Inr r)"
proof -
  have "iterations used_classes css_text (blank_comments css_text) initial_state
          \<le> length css_text"
    using iterations_bound [of used_classes css_text "blank_comments css_text" initial_state]
    by (simp add: length_blank_comments)
  moreover have "\<exists>r. prune_css used_classes css_text = Inr r"
    using scan_loop_no_error [of css_text "blank_comments css_text" used_classes initial_state]
    by (auto simp: prune_css_def length_blank_comments)
  ultimately show ?thesis
    using scan_step_advances [of s css_nocomments used_classes css_text s'] iterations_bound
    by blast
qed

theorem scan_terminates_witness:
  "pos initial_state < length ''a {}''
   \<and> scan_step {} ''a {}'' ''a {}'' initial_state =
       Inr (Continue \<lparr>pos = 4, out = [''a{}''], kept_count = 1, removed_count = 0,
                       removed_rules = []\<rparr>)
   \<and> pos initial_state
       < pos \<lparr>pos = 4, out = [''a{}''], kept_count = 1, removed_count = 0, removed_rules = []\<rparr>
   \<and> iterations {} ''a {}'' (blank_comments ''a {}'') initial_state \<le> length ''a {}''
   \<and> (\<exists>r. prune_css {} ''a {}'' = Inr r)"
proof -
  have step: "scan_step {} ''a {}'' ''a {}'' initial_state =
      Inr (Continue \<lparr>pos = 4, out = [''a{}''], kept_count = 1, removed_count = 0,
                      removed_rules = []\<rparr>)"
    by code_simp
  show ?thesis
    using step
      scan_terminates [of initial_state "''a {}''" "{}" "''a {}''"
        "\<lparr>pos = 4, out = [''a{}''], kept_count = 1, removed_count = 0, removed_rules = []\<rparr>"]
    by (simp add: initial_state_def)
qed

section \<open>The size of the pruned stylesheet\<close>

lemma length_strip_le: "length (leading_ws p) + length (strip p) \<le> length p"
proof -
  have "length (strip p) \<le> length (dropWhile isspace p)"
    using length_dropWhile_le [of isspace "rev (dropWhile isspace p)"]
    by (simp add: strip_def)
  moreover have "length (takeWhile isspace p) + length (dropWhile isspace p) = length p"
    using takeWhile_dropWhile_id [of isspace p] length_append [of "takeWhile isspace p" "dropWhile isspace p"]
    by simp
  ultimately show ?thesis by (simp add: leading_ws_def)
qed

lemma length_slice_le: "length (slice s i j) \<le> j - i"
  by (simp add: slice_def)

lemma at_rule_step_out:
  assumes "at_rule_step css_text css_nocomments s = Continue s'"
  shows "length (concat (out s')) + pos s \<le> length (concat (out s)) + pos s'"
proof -
  let ?j = "scan_while (\<lambda>c. c \<noteq> CHR ''{'' \<and> c \<noteq> CHR '';'') css_nocomments (pos s)"
  have 1: "pos s \<le> ?j" by (rule scan_while_ge)
  from assms have
    "(s' = s\<lparr>out := out s @ [slice css_text (pos s) (?j + 1)], pos := ?j + 1\<rparr>)
      \<or> (s' = s\<lparr>out := out s @ [slice css_text (pos s) ?j], pos := ?j\<rparr>)"
    by (simp add: at_rule_step_def Let_def split: if_splits)
  then show ?thesis
    using 1 length_slice_le [of css_text "pos s" "?j + 1"] length_slice_le [of css_text "pos s" ?j]
    by auto
qed

lemma rule_step_out:
  assumes "rule_step used_classes css_text css_nocomments s = Continue s'"
  shows "length (concat (out s')) + pos s \<le> length (concat (out s)) + pos s'"
proof -
  let ?j = "scan_while (\<lambda>c. c \<noteq> CHR ''{'') css_nocomments (pos s)"
  let ?k = "scan_body css_nocomments (?j + 1) 1"
  let ?p = "slice css_text (pos s) ?j"
  let ?frag = "leading_ws ?p @ strip ?p @ slice css_text ?j ?k"
  have 1: "pos s \<le> ?j" by (rule scan_while_ge)
  have 3: "?j + 1 \<le> ?k" by (rule scan_body_ge)
  have "length ?frag \<le> (?j - pos s) + (?k - ?j)"
    using length_strip_le [of ?p] length_slice_le [of css_text "pos s" ?j]
      length_slice_le [of css_text ?j ?k] by simp
  with 1 3 have 4: "length ?frag + pos s \<le> ?k" by simp
  from assms have "pos s' = ?k \<and> (out s' = out s @ [?frag] \<or> out s' = out s)"
    by (auto simp: rule_step_def Let_def split: if_splits prod.splits)
  with 1 3 4 show ?thesis by auto
qed

lemma scan_step_out:
  assumes "scan_step used_classes css_text css_nocomments s = Inr (Continue s')"
  shows "length (concat (out s')) + pos s \<le> length (concat (out s)) + pos s'"
proof (cases rule: scan_step_cases [of css_nocomments s])
  case brace
  with assms show ?thesis by (auto simp: scan_step_def Let_def)
next
  case space
  with assms show ?thesis by (auto simp: scan_step_def Let_def split: if_splits)
next
  case at
  with assms have "at_rule_step css_text css_nocomments s = Continue s'"
    by (simp add: scan_step_def Let_def)
  then show ?thesis by (rule at_rule_step_out)
next
  case rule
  with assms have "rule_step used_classes css_text css_nocomments s = Continue s'"
    by (simp add: scan_step_def Let_def)
  then show ?thesis by (rule rule_step_out)
qed

lemma scan_step_break:
  assumes "scan_step used_classes css_text css_nocomments s = Inr (Break s')"
  shows "s' = s\<lparr>out := out s @ [drop (pos s) css_text]\<rparr>"
proof (cases rule: scan_step_cases [of css_nocomments s])
  case brace
  with assms show ?thesis by (auto simp: scan_step_def Let_def)
next
  case space
  with assms show ?thesis by (auto simp: scan_step_def Let_def split: if_splits)
next
  case at
  with assms show ?thesis by (simp add: scan_step_def at_rule_step_def Let_def split: if_splits)
next
  case rule
  with assms show ?thesis
    by (simp add: scan_step_def rule_step_def Let_def split: if_splits prod.splits)
qed

lemma scan_loop_out_bound:
  assumes "scan_loop used_classes css_text css_nocomments s = Inr r"
    and "length css_text = length css_nocomments"
    and "pos s \<le> length css_nocomments"
    and "length (concat (out s)) \<le> pos s"
  shows "length (concat (out r)) \<le> length css_nocomments"
  using assms
proof (induction used_classes css_text css_nocomments s rule: scan_loop.induct)
  case (1 used_classes css_text css_nocomments s)
  show ?case
  proof (cases "pos s < length css_nocomments")
    case False
    with "1.prems" show ?thesis by (subst (asm) scan_loop.simps) auto
  next
    case True
    show ?thesis
    proof (cases "scan_step used_classes css_text css_nocomments s")
      case (Inl e)
      with True "1.prems"(1) show ?thesis by (subst (asm) scan_loop.simps) simp
    next
      case (Inr x)
      show ?thesis
      proof (cases x)
        case (Continue s')
        from True Inr Continue "1.prems"(1)
        have run: "scan_loop used_classes css_text css_nocomments s' = Inr r"
          by (subst (asm) scan_loop.simps) simp
        from scan_step_advances [OF True Inr [unfolded Continue]]
        have adv: "pos s' \<le> length css_nocomments" by simp
        from scan_step_out [OF Inr [unfolded Continue]] "1.prems"(4)
        have inv: "length (concat (out s')) \<le> pos s'" by simp
        from "1.IH" [OF True Inr Continue run "1.prems"(2) adv inv] show ?thesis .
      next
        case (Break s')
        from True Inr Break "1.prems"(1) have "r = s'"
          by (subst (asm) scan_loop.simps) simp
        with scan_step_break [OF Inr [unfolded Break]] "1.prems"(2,3,4) show ?thesis
          by simp
      qed
    qed
  qed
qed

text \<open>
  C9: for every stylesheet and every set of used classes the script returns a pruned
  text that is not longer than the original; so in the report \<open>pruned_bytes\<close> is at most
  \<open>original_bytes\<close>, and \<open>bytes_saved_estimate\<close> is their difference and is not negative.
\<close>

theorem pruned_not_longer:
  "\<exists>pruned_css r. prune_css used_classes css_text = Inr (pruned_css, r)
     \<and> length pruned_css \<le> length css_text
     \<and> report_pruned_bytes r = int (length pruned_css)
     \<and> report_original_bytes r = int (length css_text)
     \<and> report_pruned_bytes r \<le> report_original_bytes r
     \<and> report_bytes_saved_estimate r = report_original_bytes r - report_pruned_bytes r
     \<and> 0 \<le> report_bytes_saved_estimate r"
proof -
  obtain s where s: "scan_loop used_classes css_text (blank_comments css_text) initial_state = Inr s"
    using scan_loop_no_error [of css_text "blank_comments css_text" used_classes initial_state]
    by (auto simp: length_blank_comments)
  have "length (concat (out s)) \<le> length (blank_comments css_text)"
    by (rule scan_loop_out_bound [OF s]) (simp_all add: length_blank_comments initial_state_def)
  then have "length (concat (out s)) \<le> length css_text"
    by (simp add: length_blank_comments)
  with s show ?thesis by (simp add: prune_css_def make_report_def Let_def)
qed

theorem pruned_not_longer_witness:
  "prune_css {''btn''} ''.btn{color:red}.old{color:blue}'' =
     Inr (''.btn{color:red}'',
          \<lparr>report_kept_rules = 1, report_removed_rules = 1,
           report_removed_details =
             [\<lparr>rule_selectors = [''.old''], rule_class_tokens = [''old'']\<rparr>],
           report_used_classes_count = 1, report_pruned_bytes = 15,
           report_original_bytes = 31, report_bytes_saved_estimate = 16\<rparr>)
   \<and> (\<exists>pruned_css r.
         prune_css {''btn''} ''.btn{color:red}.old{color:blue}'' = Inr (pruned_css, r)
         \<and> length pruned_css \<le> length ''.btn{color:red}.old{color:blue}''
         \<and> report_pruned_bytes r \<le> report_original_bytes r
         \<and> report_bytes_saved_estimate r = report_original_bytes r - report_pruned_bytes r
         \<and> 0 \<le> report_bytes_saved_estimate r)"
proof -
  have run: "prune_css {''btn''} ''.btn{color:red}.old{color:blue}'' =
     Inr (''.btn{color:red}'',
          \<lparr>report_kept_rules = 1, report_removed_rules = 1,
           report_removed_details =
             [\<lparr>rule_selectors = [''.old''], rule_class_tokens = [''old'']\<rparr>],
           report_used_classes_count = 1, report_pruned_bytes = 15,
           report_original_bytes = 31, report_bytes_saved_estimate = 16\<rparr>)"
    by code_simp
  from pruned_not_longer [of "{''btn''}" "''.btn{color:red}.old{color:blue}''"] run
  show ?thesis by blast
qed

section \<open>The keep/remove decision\<close>

lemma classify_eq:
  "classify used_classes sels (ct, au, ac) =
     (ct @ concat (map class_in_sel_findall sels),
      au \<or> list_ex (\<lambda>t. t \<in> used_classes) (concat (map class_in_sel_findall sels)),
      ac \<or> concat (map class_in_sel_findall sels) \<noteq> [])"
  by (induction sels arbitrary: ct au ac) (auto simp: Let_def list_ex_iff)

text \<open>
  C1: the decision for a rule segmented at position \<open>pos s\<close> (the current character is
  neither a closing brace, whitespace nor \<open>@\<close>, and an opening brace is found at \<open>j\<close>).
  With \<open>toks\<close> the class tokens of all selectors of the rule: when there is none the rule
  is kept whatever \<open>used_classes\<close> is; otherwise it is kept iff some token is in
  \<open>used_classes\<close>, and else removed, its selectors and the sorted duplicate-free list of
  its tokens being recorded in \<open>removed_rules\<close> (the report's \<open>removed_details\<close>).
\<close>

theorem keep_remove_decision:
  assumes "pos s < length css_nocomments"
    and "css_nocomments ! pos s \<noteq> CHR ''}''"
    and "\<not> isspace (css_nocomments ! pos s)"
    and "css_nocomments ! pos s \<noteq> CHR ''@''"
    and "j = scan_while (\<lambda>c. c \<noteq> CHR ''{'') css_nocomments (pos s)"
    and "j < length css_nocomments"
    and "prelude_src = slice css_text (pos s) j"
    and "block_end = scan_body css_nocomments (j + 1) 1"
    and "rule_text = leading_ws prelude_src @ strip prelude_src @ slice css_text j block_end"
    and "sels = split_selectors (strip prelude_src)"
    and "toks = concat (map class_in_sel_findall sels)"
  shows "scan_step used_classes css_text css_nocomments s =
     Inr (Continue
       (if toks = [] \<or> (\<exists>t \<in> set toks. t \<in> used_classes)
        then s\<lparr>out := out s @ [rule_text], kept_count := kept_count s + 1, pos := block_end\<rparr>
        else s\<lparr>removed_rules := removed_rules s @
                  [\<lparr>rule_selectors = sels,
                    rule_class_tokens = sorted_list_of_set (set toks)\<rparr>],
                removed_count := removed_count s + 1, pos := block_end\<rparr>))"
proof -
  have "scan_step used_classes css_text css_nocomments s
      = Inr (rule_step used_classes css_text css_nocomments s)"
    using assms(2,3,4) by (simp add: scan_step_def Let_def)
  moreover have "rule_step used_classes css_text css_nocomments s =
     Continue
       (if toks = [] \<or> (\<exists>t \<in> set toks. t \<in> used_classes)
        then s\<lparr>out := out s @ [rule_text], kept_count := kept_count s + 1, pos := block_end\<rparr>
        else s\<lparr>removed_rules := removed_rules s @
                  [\<lparr>rule_selectors = sels,
                    rule_class_tokens = sorted_list_of_set (set toks)\<rparr>],
                removed_count := removed_count s + 1, pos := block_end\<rparr>)"
    using assms(6) unfolding assms(5,7-11)
    by (simp add: rule_step_def Let_def classify_eq list_ex_iff sorted_list_of_set_sort_remdups
        del: set_concat)
  ultimately show ?thesis by simp
qed

theorem keep_remove_decision_witness:
  "scan_step {''btn''} ''.btn{color:red}.old{color:blue}'' ''.btn{color:red}.old{color:blue}''
     \<lparr>pos = 15, out = [''.btn{color:red}''], kept_count = 1, removed_count = 0,
      removed_rules = []\<rparr>
   = Inr (Continue
       \<lparr>pos = 31, out = [''.btn{color:red}''], kept_count = 1, removed_count = 1,
        removed_rules = [\<lparr>rule_selectors = [''.old''], rule_class_tokens = [''old'']\<rparr>]\<rparr>)"
proof -
  let ?T = "''.btn{color:red}.old{color:blue}''"
  let ?S = "\<lparr>pos = 15, out = [''.btn{color:red}''], kept_count = 1, removed_count = 0,
      removed_rules = []\<rparr>"
  have h1: "pos ?S < length ?T" by simp
  have h2: "?T ! pos ?S \<noteq> CHR ''}''" by simp
  have h3: "\<not> isspace (?T ! pos ?S)" by (simp add: isspace_def)
  have h4: "?T ! pos ?S \<noteq> CHR ''@''" by simp
  have h5: "19 = scan_while (\<lambda>c. c \<noteq> CHR ''{'') ?T (pos ?S)" by code_simp
  have h6: "(19::nat) < length ?T" by simp
  have h7: "''.old'' = slice ?T (pos ?S) 19" by code_simp
  have h8: "31 = scan_body ?T (19 + 1) 1" by code_simp
  have h9: "''.old{color:blue}'' = leading_ws ''.old'' @ strip ''.old'' @ slice ?T 19 31"
    by code_simp
  have h10: "[''.old''] = split_selectors (strip ''.old'')" by code_simp
  have h11: "[''old''] = concat (map class_in_sel_findall [''.old''])" by code_simp
  have srt: "sorted_list_of_set (set [''old'']) = [''old'']" by code_simp
  from keep_remove_decision [of ?S ?T 19 "''.old''" ?T 31 "''.old{color:blue}''" "[''.old'']"
      "[''old'']" "{''btn''}", OF h1 h2 h3 h4 h5 h6 h7 h8 h9 h10 h11] srt
  show ?thesis by simp
qed

section \<open>At-rules\<close>

lemma scan_while_holds: "j \<le> k \<Longrightarrow> k < scan_while P s j \<Longrightarrow> P (s ! k)"
proof (induction P s j rule: scan_while.induct)
  case (1 P s j)
  show ?case
  proof (cases "j < length s \<and> P (s ! j)")
    case False
    with "1.prems" show ?thesis by (subst (asm) scan_while.simps) simp
  next
    case True
    from True "1.prems"(2) have lt: "k < scan_while P s (Suc j)"
      by (subst (asm) scan_while.simps) simp
    show ?thesis
    proof (cases "k = j")
      case True
      with \<open>j < length s \<and> P (s ! j)\<close> show ?thesis by simp
    next
      case False
      with "1.prems"(1) have "Suc j \<le> k" by simp
      from "1.IH" [OF True this lt] show ?thesis .
    qed
  qed
qed

lemma scan_while_stops:
  "scan_while P s j < length s \<Longrightarrow> \<not> P (s ! scan_while P s j)"
proof (induction P s j rule: scan_while.induct)
  case (1 P s j)
  show ?case
  proof (cases "j < length s \<and> P (s ! j)")
    case False
    with "1.prems" show ?thesis by (subst (asm) scan_while.simps, subst scan_while.simps) auto
  next
    case True
    then have eq: "scan_while P s j = scan_while P s (Suc j)"
      by (subst scan_while.simps) simp
    with "1.IH" [OF True] "1.prems" show ?thesis by simp
  qed
qed

lemma scan_step_out_extends:
  assumes "scan_step used_classes css_text css_nocomments s = Inr x"
    and "x = Continue s' \<or> x = Break s'"
  shows "\<exists>rest. out s' = out s @ rest"
proof (cases rule: scan_step_cases [of css_nocomments s])
  case brace
  with assms show ?thesis by (auto simp: scan_step_def Let_def)
next
  case space
  with assms show ?thesis by (auto simp: scan_step_def Let_def split: if_splits)
next
  case at
  with assms show ?thesis
    by (auto simp: scan_step_def at_rule_step_def Let_def split: if_splits)
next
  case rule
  with assms show ?thesis
    by (auto simp: scan_step_def rule_step_def Let_def split: if_splits prod.splits)
qed

lemma scan_loop_out_extends:
  assumes "scan_loop used_classes css_text css_nocomments s = Inr r"
  shows "\<exists>rest. out r = out s @ rest"
  using assms
proof (induction used_classes css_text css_nocomments s rule: scan_loop.induct)
  case (1 used_classes css_text css_nocomments s)
  show ?case
  proof (cases "pos s < length css_nocomments")
    case False
    with "1.prems" show ?thesis by (subst (asm) scan_loop.simps) auto
  next
    case True
    show ?thesis
    proof (cases "scan_step used_classes css_text css_nocomments s")
      case (Inl e)
      with True "1.prems"(1) show ?thesis by (subst (asm) scan_loop.simps) simp
    next
      case (Inr x)
      show ?thesis
      proof (cases x)
        case (Continue s')
        from True Inr Continue "1.prems"(1)
        have run: "scan_loop used_classes css_text css_nocomments s' = Inr r"
          by (subst (asm) scan_loop.simps) simp
        from "1.IH" [OF True Inr Continue run] obtain rest where "out r = out s' @ rest" ..
        moreover from scan_step_out_extends [OF Inr] Continue
        obtain rest' where "out s' = out s @ rest'" by blast
        ultimately show ?thesis by simp
      next
        case (Break s')
        from True Inr Break "1.prems"(1) have "r = s'"
          by (subst (asm) scan_loop.simps) simp
        with scan_step_out_extends [OF Inr] Break show ?thesis by blast
      qed
    qed
  qed
qed

text \<open>
  C3, as amended: at an \<open>@\<close> the scanner emits, whatever \<open>used_classes\<close> is and without
  looking at selectors, the text from the \<open>@\<close> through the first \<open>;\<close> or \<open>{\<close> of the
  comment-blanked text (to the end of input when there is none): the statement, or the
  header of a block. Nothing else of the state changes, and the fragment stays in the
  final output. What follows the opening brace of a block is scanned by the same loop.
\<close>

theorem at_rule_header_passthrough:
  assumes "length css_text = length css_nocomments"
    and "pos s < length css_nocomments"
    and "css_nocomments ! pos s = CHR ''@''"
    and "j = scan_while (\<lambda>c. c \<noteq> CHR ''{'' \<and> c \<noteq> CHR '';'') css_nocomments (pos s)"
    and "e = (if j < length css_nocomments then j + 1 else j)"
  shows "scan_step used_classes css_text css_nocomments s =
           Inr (Continue (s\<lparr>out := out s @ [slice css_text (pos s) e], pos := e\<rparr>))
     \<and> pos s < e \<and> e \<le> length css_nocomments
     \<and> length (slice css_text (pos s) e) = e - pos s
     \<and> (\<forall>k. pos s \<le> k \<and> k < j \<longrightarrow>
            css_nocomments ! k \<noteq> CHR ''{'' \<and> css_nocomments ! k \<noteq> CHR '';'')
     \<and> (j < length css_nocomments \<longrightarrow>
            css_nocomments ! j = CHR ''{'' \<or> css_nocomments ! j = CHR '';'')
     \<and> (\<forall>r. scan_loop used_classes css_text css_nocomments s = Inr r \<longrightarrow>
            (\<exists>rest. out r = out s @ [slice css_text (pos s) e] @ rest))"
proof -
  let ?P = "\<lambda>c. c \<noteq> CHR ''{'' \<and> c \<noteq> CHR '';''"
  let ?s' = "s\<lparr>out := out s @ [slice css_text (pos s) e], pos := e\<rparr>"
  have sp: "\<not> isspace CHR ''@''" by (simp add: isspace_def)
  have "scan_step used_classes css_text css_nocomments s
      = Inr (at_rule_step css_text css_nocomments s)"
    using assms(3) sp by (simp add: scan_step_def Let_def)
  moreover have stop: "j < length css_nocomments \<longrightarrow>
      css_nocomments ! j = CHR ''{'' \<or> css_nocomments ! j = CHR '';''"
    using scan_while_stops [of ?P css_nocomments "pos s"] assms(4) by auto
  then have "at_rule_step css_text css_nocomments s = Continue ?s'"
    unfolding assms(5) using assms(4) by (auto simp: at_rule_step_def Let_def)
  ultimately have step: "scan_step used_classes css_text css_nocomments s = Inr (Continue ?s')"
    by simp
  have lt: "pos s < j"
    unfolding assms(4) using assms(2,3) by (intro scan_while_step) simp_all
  have le: "j \<le> length css_nocomments"
    unfolding assms(4) using assms(2) by (intro scan_while_le) simp
  have e: "pos s < e \<and> e \<le> length css_nocomments" using lt le assms(5) by auto
  have len: "length (slice css_text (pos s) e) = e - pos s"
    using e assms(1) by (auto simp: slice_def)
  have before: "\<forall>k. pos s \<le> k \<and> k < j \<longrightarrow>
      css_nocomments ! k \<noteq> CHR ''{'' \<and> css_nocomments ! k \<noteq> CHR '';''"
    using scan_while_holds [of "pos s" _ ?P css_nocomments] assms(4) by blast
  have final: "\<exists>rest. out r = out s @ [slice css_text (pos s) e] @ rest"
    if run: "scan_loop used_classes css_text css_nocomments s = Inr r" for r
  proof -
    from run step assms(2)
    have "scan_loop used_classes css_text css_nocomments ?s' = Inr r"
      by (subst (asm) scan_loop.simps) simp
    from scan_loop_out_extends [OF this] show ?thesis by simp
  qed
  from step e len before stop final show ?thesis by blast
qed

theorem at_rule_header_passthrough_witness:
  "scan_step {} ''@media print{.old{color:blue}}'' ''@media print{.old{color:blue}}'' initial_state
     = Inr (Continue \<lparr>pos = 13, out = [''@media print{''], kept_count = 0, removed_count = 0,
                      removed_rules = []\<rparr>)
   \<and> (\<exists>rest. out \<lparr>pos = 30, out = [''@media print{'', ''}''], kept_count = 0,
                 removed_count = 1,
                 removed_rules = [\<lparr>rule_selectors = [''.old''], rule_class_tokens = [''old'']\<rparr>]\<rparr>
          = out initial_state @ [''@media print{''] @ rest)"
proof -
  let ?T = "''@media print{.old{color:blue}}''"
  have h1: "length ?T = length ?T" by simp
  have h2: "pos initial_state < length ?T" by (simp add: initial_state_def)
  have h3: "?T ! pos initial_state = CHR ''@''" by (simp add: initial_state_def)
  have h4: "12 = scan_while (\<lambda>c. c \<noteq> CHR ''{'' \<and> c \<noteq> CHR '';'') ?T (pos initial_state)"
    by code_simp
  have h5: "(13::nat) = (if 12 < length ?T then 12 + 1 else 12)" by simp
  have sl: "slice ?T (pos initial_state) 13 = ''@media print{''" by code_simp
  have run: "scan_loop {} ?T ?T initial_state =
     Inr \<lparr>pos = 30, out = [''@media print{'', ''}''], kept_count = 0,
                 removed_count = 1,
                 removed_rules = [\<lparr>rule_selectors = [''.old''], rule_class_tokens = [''old'']\<rparr>]\<rparr>"
    by code_simp
  from at_rule_header_passthrough [of ?T ?T initial_state 12 13 "{}", OF h1 h2 h3 h4 h5] sl run
  show ?thesis by (simp add: initial_state_def)
qed

text \<open>
  The content of a block at-rule is not passed through: with no class in use, the rule
  nested in \<^verbatim>\<open>@media print{...}\<close> is removed from the output.
\<close>

theorem at_rule_block_counterexample:
  "prune_css {} ''@media print{.old{color:blue}}'' =
     Inr (''@media print{}'',
          \<lparr>report_kept_rules = 0, report_removed_rules = 1,
           report_removed_details =
             [\<lparr>rule_selectors = [''.old''], rule_class_tokens = [''old'']\<rparr>],
           report_used_classes_count = 0, report_pruned_bytes = 14,
           report_original_bytes = 30, report_bytes_saved_estimate = 16\<rparr>)"
  by code_simp

section \<open>Unterminated rules\<close>

text \<open>
  The brace depth of lines 140-145 after the characters of a piece of the body, started
  at \<open>depth\<close>: one more for each opening brace, one less for each closing brace. The body
  scan stops at the first position where this depth is zero, and at the end of input when
  there is none.
\<close>

fun depth_after :: "int \<Rightarrow> string \<Rightarrow> int" where
  "depth_after depth [] = depth"
| "depth_after depth (c # cs) =
     depth_after
       (if c = CHR ''{'' then depth + 1 else if c = CHR ''}'' then depth - 1 else depth) cs"

lemma slice_Cons: "k < m \<Longrightarrow> k < length s \<Longrightarrow> slice s k m = s ! k # slice s (Suc k) m"
proof -
  assume a: "k < m" "k < length s"
  then obtain d where d: "m - k = Suc d" and d': "m - Suc k = d" by (cases "m - k") auto
  from a(2) have "drop k s = s ! k # drop (Suc k) s" by (simp add: Cons_nth_drop_Suc)
  with d d' show ?thesis by (simp add: slice_def)
qed

lemma slice_empty: "slice s k k = []"
  by (simp add: slice_def)

lemma scan_body_unterminated:
  "k \<le> length s \<Longrightarrow> 0 < d
     \<Longrightarrow> (\<forall>m. k \<le> m \<and> m \<le> length s \<longrightarrow> 0 < depth_after d (slice s k m))
     \<Longrightarrow> scan_body s k d = length s"
proof (induction s k d rule: scan_body.induct)
  case (1 s k d)
  show ?case
  proof (cases "k < length s")
    case False
    with "1.prems" show ?thesis by (subst scan_body.simps) simp
  next
    case True
    let ?d = "if s ! k = CHR ''{'' then d + 1 else if s ! k = CHR ''}'' then d - 1 else d"
    from True "1.prems"(2) have c: "k < length s \<and> 0 < d" by simp
    have step: "depth_after d (slice s k m) = depth_after ?d (slice s (Suc k) m)"
      if "Suc k \<le> m" for m
      using that True by (subst slice_Cons) simp_all
    from "1.prems"(3) True have "0 < depth_after d (slice s k (Suc k))" by simp
    then have d: "0 < ?d" by (simp add: step slice_empty)
    have all: "\<forall>m. Suc k \<le> m \<and> m \<le> length s \<longrightarrow> 0 < depth_after ?d (slice s (Suc k) m)"
    proof (intro allI impI)
      fix m assume m: "Suc k \<le> m \<and> m \<le> length s"
      with "1.prems"(3) have "0 < depth_after d (slice s k m)" by simp
      with m show "0 < depth_after ?d (slice s (Suc k) m)" by (simp only: step)
    qed
    from True have le: "Suc k \<le> length s" by simp
    have "scan_body s (Suc k) ?d = length s" using c le d all by (rule "1.IH")
    with c show ?thesis by (subst scan_body.simps) simp
  qed
qed

lemma scan_body_closes:
  "k \<le> m \<Longrightarrow> m \<le> length s \<Longrightarrow> 0 < d \<Longrightarrow> depth_after d (slice s k m) = 0
     \<Longrightarrow> (\<forall>m'. k \<le> m' \<and> m' < m \<longrightarrow> 0 < depth_after d (slice s k m'))
     \<Longrightarrow> scan_body s k d = m"
proof (induction s k d rule: scan_body.induct)
  case (1 s k d)
  from "1.prems"(3,4) have "k \<noteq> m" by (auto simp: slice_empty)
  with "1.prems"(1,2) have km: "Suc k \<le> m" and kl: "k < length s" by simp_all
  let ?d = "if s ! k = CHR ''{'' then d + 1 else if s ! k = CHR ''}'' then d - 1 else d"
  from kl "1.prems"(3) have c: "k < length s \<and> 0 < d" by simp
  have step: "depth_after d (slice s k m') = depth_after ?d (slice s (Suc k) m')"
    if "Suc k \<le> m'" for m'
    using that kl by (subst slice_Cons) simp_all
  have unf: "scan_body s k d = scan_body s (Suc k) ?d"
    using c by (subst scan_body.simps) simp
  show ?case
  proof (cases "m = Suc k")
    case True
    with "1.prems"(4) have "?d = 0" by (simp add: step slice_empty)
    then have "scan_body s (Suc k) ?d = Suc k" by (subst scan_body.simps) simp
    with unf True show ?thesis by simp
  next
    case False
    with km have lt: "Suc k < m" by simp
    with "1.prems"(5) have "0 < depth_after d (slice s k (Suc k))" by simp
    then have d: "0 < ?d" by (simp add: step slice_empty)
    have z: "depth_after ?d (slice s (Suc k) m) = 0"
      using "1.prems"(4) km by (simp only: step)
    have all: "\<forall>m'. Suc k \<le> m' \<and> m' < m \<longrightarrow> 0 < depth_after ?d (slice s (Suc k) m')"
    proof (intro allI impI)
      fix m' assume m: "Suc k \<le> m' \<and> m' < m"
      with "1.prems"(5) have "0 < depth_after d (slice s k m')" by simp
      with m show "0 < depth_after ?d (slice s (Suc k) m')" by (simp only: step)
    qed
    have "scan_body s (Suc k) ?d = m" using c km "1.prems"(2) d z all by (rule "1.IH")
    with unf show ?thesis by simp
  qed
qed

lemma rule_step_decides:
  assumes "j = scan_while (\<lambda>c. c \<noteq> CHR ''{'') css_nocomments (pos s)"
    and "j < length css_nocomments"
    and "prelude_src = slice css_text (pos s) j"
    and "block_end = scan_body css_nocomments (j + 1) 1"
    and "sels = split_selectors (strip prelude_src)"
    and "toks = concat (map class_in_sel_findall sels)"
  shows "rule_step used_classes css_text css_nocomments s =
     Continue
       (if toks = [] \<or> (\<exists>t \<in> set toks. t \<in> used_classes)
        then s\<lparr>out := out s @ [leading_ws prelude_src @ strip prelude_src
                                  @ slice css_text j block_end],
               kept_count := kept_count s + 1, pos := block_end\<rparr>
        else s\<lparr>removed_rules := removed_rules s @
                  [\<lparr>rule_selectors = sels,
                    rule_class_tokens = sorted_list_of_set (set toks)\<rparr>],
                removed_count := removed_count s + 1, pos := block_end\<rparr>)"
  using assms(2) unfolding assms(1,3-6)
  by (simp add: rule_step_def Let_def classify_eq list_ex_iff sorted_list_of_set_sort_remdups
      del: set_concat)

text \<open>
  C5, as amended: at the start of a rule, when no opening brace is found before the end
  of input, the remaining text is emitted unchanged and the scan stops with a result.
  When the opening brace is found at \<open>j\<close> and the brace depth never returns to zero before
  the end of input (no closing brace for the rule is found), the body runs to the end of
  input and the rule goes through the usual decision: it is kept, with its stripped
  prelude and its body, when it has no class token or a used one, and else removed and
  recorded; the scan then stops with that state as its result.
\<close>

theorem unterminated_rule:
  assumes "pos s < length css_nocomments"
    and "css_nocomments ! pos s \<noteq> CHR ''}''"
    and "\<not> isspace (css_nocomments ! pos s)"
    and "css_nocomments ! pos s \<noteq> CHR ''@''"
    and "j = scan_while (\<lambda>c. c \<noteq> CHR ''{'') css_nocomments (pos s)"
    and "prelude_src = slice css_text (pos s) j"
    and "sels = split_selectors (strip prelude_src)"
    and "toks = concat (map class_in_sel_findall sels)"
    and "decided =
       (if toks = [] \<or> (\<exists>t \<in> set toks. t \<in> used_classes)
        then s\<lparr>out := out s @ [leading_ws prelude_src @ strip prelude_src
                                  @ slice css_text j (length css_nocomments)],
               kept_count := kept_count s + 1, pos := length css_nocomments\<rparr>
        else s\<lparr>removed_rules := removed_rules s @
                  [\<lparr>rule_selectors = sels,
                    rule_class_tokens = sorted_list_of_set (set toks)\<rparr>],
                removed_count := removed_count s + 1, pos := length css_nocomments\<rparr>)"
  shows "(length css_nocomments \<le> j \<longrightarrow>
            scan_step used_classes css_text css_nocomments s =
              Inr (Break (s\<lparr>out := out s @ [drop (pos s) css_text]\<rparr>))
            \<and> scan_loop used_classes css_text css_nocomments s =
              Inr (s\<lparr>out := out s @ [drop (pos s) css_text]\<rparr>))
     \<and> (j < length css_nocomments
          \<and> (\<forall>m. j < m \<and> m \<le> length css_nocomments \<longrightarrow>
                 0 < depth_after 1 (slice css_nocomments (j + 1) m))
          \<longrightarrow> scan_body css_nocomments (j + 1) 1 = length css_nocomments
              \<and> scan_step used_classes css_text css_nocomments s = Inr (Continue decided)
              \<and> scan_loop used_classes css_text css_nocomments s = Inr decided)"
proof -
  have rs: "scan_step used_classes css_text css_nocomments s
      = Inr (rule_step used_classes css_text css_nocomments s)"
    using assms(2,3,4) by (simp add: scan_step_def Let_def)
  have A: "scan_step used_classes css_text css_nocomments s =
              Inr (Break (s\<lparr>out := out s @ [drop (pos s) css_text]\<rparr>))
            \<and> scan_loop used_classes css_text css_nocomments s =
              Inr (s\<lparr>out := out s @ [drop (pos s) css_text]\<rparr>)"
    if "length css_nocomments \<le> j"
  proof -
    from that assms(5) have "rule_step used_classes css_text css_nocomments s
        = Break (s\<lparr>out := out s @ [drop (pos s) css_text]\<rparr>)"
      by (simp add: rule_step_def Let_def)
    with rs have st: "scan_step used_classes css_text css_nocomments s =
        Inr (Break (s\<lparr>out := out s @ [drop (pos s) css_text]\<rparr>))" by simp
    with assms(1) show ?thesis by (subst scan_loop.simps) simp
  qed
  have B: "scan_body css_nocomments (j + 1) 1 = length css_nocomments
              \<and> scan_step used_classes css_text css_nocomments s = Inr (Continue decided)
              \<and> scan_loop used_classes css_text css_nocomments s = Inr decided"
    if lt: "j < length css_nocomments"
      and never: "\<forall>m. j < m \<and> m \<le> length css_nocomments \<longrightarrow>
                 0 < depth_after 1 (slice css_nocomments (j + 1) m)"
  proof -
    have k: "scan_body css_nocomments (j + 1) 1 = length css_nocomments"
      using lt never by (intro scan_body_unterminated) auto
    have "rule_step used_classes css_text css_nocomments s = Continue decided"
      unfolding assms(9)
      by (rule rule_step_decides [OF assms(5) lt assms(6) k [symmetric] assms(7,8)])
    with rs have st: "scan_step used_classes css_text css_nocomments s = Inr (Continue decided)"
      by simp
    have p: "pos decided = length css_nocomments" by (simp add: assms(9))
    have "scan_loop used_classes css_text css_nocomments decided = Inr decided"
      using p by (subst scan_loop.simps) simp
    with st assms(1) have "scan_loop used_classes css_text css_nocomments s = Inr decided"
      by (subst scan_loop.simps) simp
    with k st show ?thesis by simp
  qed
  from A B show ?thesis by blast
qed


theorem unterminated_rule_witness:
  "scan_loop {} ''a{} .old '' ''a{} .old ''
      \<lparr>pos = 4, out = [''a{}'', '' ''], kept_count = 1, removed_count = 0, removed_rules = []\<rparr>
     = Inr \<lparr>pos = 4, out = [''a{}'', '' '', ''.old ''], kept_count = 1, removed_count = 0,
            removed_rules = []\<rparr>
   \<and> scan_body ''.a{b{c}d'' (2 + 1) 1 = 8
   \<and> scan_loop {} ''.a{b{c}d'' ''.a{b{c}d'' initial_state
     = Inr \<lparr>pos = 8, out = [], kept_count = 0, removed_count = 1,
            removed_rules = [\<lparr>rule_selectors = [''.a''], rule_class_tokens = [''a'']\<rparr>]\<rparr>"
proof -
  let ?T = "''a{} .old ''"
  let ?S = "\<lparr>pos = 4, out = [''a{}'', '' ''], kept_count = 1, removed_count = 0,
             removed_rules = []\<rparr>"
  have a1: "pos ?S < length ?T" by simp
  have a2: "?T ! pos ?S \<noteq> CHR ''}''" by simp
  have a3: "\<not> isspace (?T ! pos ?S)" by (simp add: isspace_def)
  have a4: "?T ! pos ?S \<noteq> CHR ''@''" by simp
  have a5: "9 = scan_while (\<lambda>c. c \<noteq> CHR ''{'') ?T (pos ?S)" by code_simp
  have a6: "length ?T \<le> 9" by simp
  have a7: "drop (pos ?S) ?T = ''.old ''" by simp
  note A = unterminated_rule [where s = ?S and css_nocomments = ?T and css_text = ?T
      and used_classes = "{}" and j = 9, OF a1 a2 a3 a4 a5 refl refl refl refl]
  from A a6 a7 have ra: "scan_loop {} ?T ?T ?S
     = Inr \<lparr>pos = 4, out = [''a{}'', '' '', ''.old ''], kept_count = 1, removed_count = 0,
            removed_rules = []\<rparr>" by simp
  let ?U = "''.a{b{c}d''"
  let ?D = "\<lparr>pos = 8, out = [], kept_count = 0, removed_count = 1,
            removed_rules = [\<lparr>rule_selectors = [''.a''], rule_class_tokens = [''a'']\<rparr>]\<rparr>"
  have b1: "pos initial_state < length ?U" by (simp add: initial_state_def)
  have b2: "?U ! pos initial_state \<noteq> CHR ''}''" by (simp add: initial_state_def)
  have b3: "\<not> isspace (?U ! pos initial_state)" by (simp add: isspace_def initial_state_def)
  have b4: "?U ! pos initial_state \<noteq> CHR ''@''" by (simp add: initial_state_def)
  have b5: "2 = scan_while (\<lambda>c. c \<noteq> CHR ''{'') ?U (pos initial_state)" by code_simp
  have b6: "''.a'' = slice ?U (pos initial_state) 2" by code_simp
  have b7: "[''.a''] = split_selectors (strip ''.a'')" by code_simp
  have b8: "[''a''] = concat (map class_in_sel_findall [''.a''])" by code_simp
  have srt: "sorted_list_of_set (set [''a'']) = [''a'']" by code_simp
  have b9: "?D =
       (if [''a''] = [] \<or> (\<exists>t \<in> set [''a'']. t \<in> ({} :: string set))
        then initial_state\<lparr>out := out initial_state @ [leading_ws ''.a'' @ strip ''.a''
                                  @ slice ?U 2 (length ?U)],
               kept_count := kept_count initial_state + 1, pos := length ?U\<rparr>
        else initial_state\<lparr>removed_rules := removed_rules initial_state @
                  [\<lparr>rule_selectors = [''.a''],
                    rule_class_tokens = sorted_list_of_set (set [''a''])\<rparr>],
                removed_count := removed_count initial_state + 1, pos := length ?U\<rparr>)"
    by (simp add: srt initial_state_def)
  have lt: "(2::nat) < length ?U" by simp
  have never: "\<forall>m. 2 < m \<and> m \<le> length ?U \<longrightarrow> 0 < depth_after 1 (slice ?U (2 + 1) m)"
  proof (intro allI impI)
    fix m :: nat
    assume "2 < m \<and> m \<le> length ?U"
    then have "2 < m" "m \<le> 8" by simp_all
    then have "m = 3 \<or> m = 4 \<or> m = 5 \<or> m = 6 \<or> m = 7 \<or> m = 8" by arith
    then show "0 < depth_after 1 (slice ?U (2 + 1) m)"
      by (elim disjE) (simp_all add: slice_def)
  qed
  note B = unterminated_rule [where s = initial_state and css_nocomments = ?U
      and css_text = ?U and used_classes = "{}" and j = 2 and decided = ?D,
      OF b1 b2 b3 b4 b5 b6 b7 b8 b9]
  from B lt never have rb: "scan_body ?U (2 + 1) 1 = length ?U
      \<and> scan_loop {} ?U ?U initial_state = Inr ?D" by blast
  from ra rb show ?thesis by simp
qed

text \<open>
  A rule whose closing brace is missing is not passed through when none of its classes
  is in use: it is removed like any other rule.
\<close>

theorem unterminated_rule_counterexample:
  "prune_css {} ''.old{color:blue'' =
     Inr ([],
          \<lparr>report_kept_rules = 0, report_removed_rules = 1,
           report_removed_details =
             [\<lparr>rule_selectors = [''.old''], rule_class_tokens = [''old'']\<rparr>],
           report_used_classes_count = 0, report_pruned_bytes = 0,
           report_original_bytes = 15, report_bytes_saved_estimate = 15\<rparr>)"
  by code_simp

section \<open>Byte accounting of kept rules\<close>

lemma blank_comments_nth:
  "i < length s \<Longrightarrow> blank_comments s ! i = s ! i \<or> blank_comments s ! i = CHR '' ''"
proof (induction s arbitrary: i rule: blank_comments.induct)
  case (1 s)
  show ?case
  proof (cases s)
    case Nil
    with "1.prems" show ?thesis by simp
  next
    case (Cons c1 t)
    note s = this
    show ?thesis
    proof (cases t)
      case Nil
      with s show ?thesis by (subst blank_comments.simps) simp
    next
      case (Cons c2 r)
      note t = this
      show ?thesis
      proof (cases "c1 = CHR ''/'' \<and> c2 = CHR ''*'' \<and> find_close r \<noteq> None")
        case False
        then have unf: "blank_comments s = c1 # blank_comments (c2 # r)"
          using s t by (subst blank_comments.simps) (auto split: option.splits)
        show ?thesis
        proof (cases i)
          case 0
          with unf s show ?thesis by simp
        next
          case (Suc k)
          with "1.prems" s t have k: "k < length (c2 # r)" by simp
          have "blank_comments (c2 # r) ! k = (c2 # r) ! k
              \<or> blank_comments (c2 # r) ! k = CHR '' ''"
          proof (cases "c1 = CHR ''/'' \<and> c2 = CHR ''*''")
            case True
            with False have "find_close r = None" by simp
            from "1.IH"(1) [OF s t True this k] show ?thesis .
          next
            case False
            from "1.IH"(3) [OF s t False k] show ?thesis .
          qed
          with unf Suc s t show ?thesis by simp
        qed
      next
        case True
        then obtain q where q: "find_close r = Some q" by auto
        from True have c: "c1 = CHR ''/'' \<and> c2 = CHR ''*''" by simp
        have unf: "blank_comments s
            = replicate (q + 4) CHR '' '' @ blank_comments (drop (q + 2) r)"
          using s t c q by (subst blank_comments.simps) simp
        from find_close_bound [OF q] have qb: "q + 2 \<le> length r" .
        show ?thesis
        proof (cases "i < q + 4")
          case True
          with unf show ?thesis by (simp add: nth_append)
        next
          case False
          then have ge: "q + 4 \<le> i" by simp
          with "1.prems" s t qb have k: "i - (q + 4) < length (drop (q + 2) r)" by simp
          from "1.IH"(2) [OF s t c q k]
          have "blank_comments (drop (q + 2) r) ! (i - (q + 4)) = drop (q + 2) r ! (i - (q + 4))
              \<or> blank_comments (drop (q + 2) r) ! (i - (q + 4)) = CHR '' ''" .
          moreover have "blank_comments s ! i = blank_comments (drop (q + 2) r) ! (i - (q + 4))"
            using unf False by (simp add: nth_append)
          moreover have "s ! i = drop (q + 2) r ! (i - (q + 4))"
          proof -
            from ge obtain m where m: "i = Suc (Suc m)" and mq: "q + 2 \<le> m"
              by (cases i; cases "i - 1") auto
            have "s ! i = r ! m" using s t m by simp
            also have "\<dots> = drop (q + 2) r ! (m - (q + 2))"
            proof -
              have e: "q + 2 + (m - (q + 2)) = m" using mq by simp
              have "drop (q + 2) r ! (m - (q + 2)) = r ! (q + 2 + (m - (q + 2)))"
                using qb by (intro nth_drop) simp
              then show ?thesis by (simp only: e)
            qed
            also have "m - (q + 2) = i - (q + 4)" using m by simp
            finally show ?thesis .
          qed
          ultimately show ?thesis by simp
        qed
      qed
    qed
  qed
qed


lemma take_slice: "i \<le> e \<Longrightarrow> take i t @ slice t i e = take e t"
  using take_add [of i "e - i" t] by (simp add: slice_def)

lemma slice_ends:
  assumes "i < j" and "j \<le> length t"
  shows "slice t i j \<noteq> []" and "hd (slice t i j) = t ! i" and "last (slice t i j) = t ! (j - 1)"
proof -
  have len: "length (slice t i j) = j - i" using assms by (simp add: slice_def)
  with assms show ne: "slice t i j \<noteq> []" by auto
  have "hd (slice t i j) = slice t i j ! 0" using ne by (rule hd_conv_nth)
  also have "\<dots> = t ! i" using assms by (simp add: slice_def)
  finally show "hd (slice t i j) = t ! i" .
  have "last (slice t i j) = slice t i j ! (length (slice t i j) - 1)"
    using ne by (rule last_conv_nth)
  also have "\<dots> = t ! (i + (j - i - 1))" using assms by (simp add: slice_def len)
  also have "i + (j - i - 1) = j - 1" using assms by simp
  finally show "last (slice t i j) = t ! (j - 1)" .
qed

lemma strip_unchanged:
  assumes "p = [] \<or> (\<not> isspace (hd p) \<and> \<not> isspace (last p))"
  shows "leading_ws p @ strip p = p"
proof (cases p)
  case Nil
  then show ?thesis by (simp add: leading_ws_def strip_def)
next
  case (Cons x xs)
  with assms have h: "\<not> isspace x" and l: "\<not> isspace (last p)" by simp_all
  from h Cons have a: "leading_ws p = []" "dropWhile isspace p = p"
    by (simp_all add: leading_ws_def)
  from Cons have ne: "p \<noteq> []" by simp
  have "rev p = rev (butlast p @ [last p])"
    by (simp only: append_butlast_last_id [OF ne])
  also have "\<dots> = last p # rev (butlast p)" by simp
  finally have r: "rev p = last p # rev (butlast p)" .
  have "dropWhile isspace (last p # rev (butlast p)) = last p # rev (butlast p)"
    using l by simp
  then have "dropWhile isspace (rev p) = rev p" by (simp only: r)
  with a show ?thesis by (simp add: strip_def)
qed

lemma at_rule_step_copies:
  assumes "at_rule_step css_text css_nocomments s = Continue s'"
    and "concat (out s) = take (pos s) css_text"
  shows "concat (out s') = take (pos s') css_text"
proof -
  let ?j = "scan_while (\<lambda>c. c \<noteq> CHR ''{'' \<and> c \<noteq> CHR '';'') css_nocomments (pos s)"
  have 1: "pos s \<le> ?j" by (rule scan_while_ge)
  from assms(1) have
    "(s' = s\<lparr>out := out s @ [slice css_text (pos s) (?j + 1)], pos := ?j + 1\<rparr>)
      \<or> (s' = s\<lparr>out := out s @ [slice css_text (pos s) ?j], pos := ?j\<rparr>)"
    by (simp add: at_rule_step_def Let_def split: if_splits)
  then show ?thesis
    using 1 assms(2) take_slice [of "pos s" "?j + 1" css_text] take_slice [of "pos s" ?j css_text]
    by auto
qed

lemma rule_step_copies:
  assumes "rule_step used_classes css_text css_nocomments s = Continue s'"
    and "removed_count s' = removed_count s"
    and "concat (out s) = take (pos s) css_text"
    and "length css_text = length css_nocomments"
    and "\<not> isspace (css_text ! pos s)"
    and "\<forall>j. 0 < j \<and> j < length css_text \<and> css_nocomments ! j = CHR ''{''
            \<longrightarrow> \<not> isspace (css_text ! (j - 1))"
  shows "concat (out s') = take (pos s') css_text"
proof -
  let ?j = "scan_while (\<lambda>c. c \<noteq> CHR ''{'') css_nocomments (pos s)"
  let ?k = "scan_body css_nocomments (?j + 1) 1"
  let ?p = "slice css_text (pos s) ?j"
  let ?frag = "leading_ws ?p @ strip ?p @ slice css_text ?j ?k"
  have 1: "pos s \<le> ?j" by (rule scan_while_ge)
  have 3: "?j + 1 \<le> ?k" by (rule scan_body_ge)
  from assms(1,2) have 2: "?j < length css_nocomments \<and> pos s' = ?k \<and> out s' = out s @ [?frag]"
    by (auto simp: rule_step_def Let_def split: if_splits prod.splits)
  have brace: "css_nocomments ! ?j = CHR ''{''"
    using scan_while_stops [of "\<lambda>c. c \<noteq> CHR ''{''" css_nocomments "pos s"] 2 by simp
  have "?p = [] \<or> (\<not> isspace (hd ?p) \<and> \<not> isspace (last ?p))"
  proof (cases "pos s < ?j")
    case False
    then show ?thesis by (simp add: slice_def)
  next
    case True
    with 2 assms(4) have jl: "?j \<le> length css_text" by simp
    from True have "0 < ?j" by simp
    with assms(6) brace 2 assms(4) have "\<not> isspace (css_text ! (?j - 1))" by simp
    with slice_ends(2,3) [OF True jl] assms(5) show ?thesis by simp
  qed
  then have a: "leading_ws ?p @ strip ?p = ?p" by (rule strip_unchanged)
  have b: "take (pos s) css_text @ ?p = take ?j css_text" using 1 by (rule take_slice)
  have c: "take ?j css_text @ slice css_text ?j ?k = take ?k css_text"
    using 3 by (intro take_slice) simp
  have "take (pos s) css_text @ ?frag
      = (take (pos s) css_text @ (leading_ws ?p @ strip ?p)) @ slice css_text ?j ?k"
    by (simp only: append_assoc)
  also have "\<dots> = take ?k css_text" by (simp only: a b c)
  finally have "take (pos s) css_text @ ?frag = take ?k css_text" .
  moreover from 2 assms(3) have "concat (out s') = take (pos s) css_text @ ?frag" by simp
  moreover from 2 have "pos s' = ?k" by simp
  ultimately show ?thesis by (simp only:)
qed

lemma scan_step_removed_mono:
  assumes "scan_step used_classes css_text css_nocomments s = Inr x"
    and "x = Continue s' \<or> x = Break s'"
  shows "removed_count s \<le> removed_count s'"
proof (cases rule: scan_step_cases [of css_nocomments s])
  case brace
  with assms show ?thesis by (auto simp: scan_step_def Let_def)
next
  case space
  with assms show ?thesis by (auto simp: scan_step_def Let_def split: if_splits)
next
  case at
  with assms show ?thesis
    by (auto simp: scan_step_def at_rule_step_def Let_def split: if_splits)
next
  case rule
  with assms show ?thesis
    by (auto simp: scan_step_def rule_step_def Let_def split: if_splits prod.splits)
qed

lemma scan_step_copies:
  assumes "scan_step used_classes css_text css_nocomments s = Inr (Continue s')"
    and "removed_count s' = removed_count s"
    and "concat (out s) = take (pos s) css_text"
    and "pos s < length css_nocomments"
    and "length css_text = length css_nocomments"
    and "\<forall>i < length css_nocomments.
           css_nocomments ! i = css_text ! i \<or> css_nocomments ! i = CHR '' ''"
    and "\<forall>j. 0 < j \<and> j < length css_text \<and> css_nocomments ! j = CHR ''{''
            \<longrightarrow> \<not> isspace (css_text ! (j - 1))"
  shows "concat (out s') = take (pos s') css_text"
proof (cases rule: scan_step_cases [of css_nocomments s])
  case brace
  with assms(6,4) have "css_text ! pos s = CHR ''}''" by auto
  with brace assms(1,3,4,5) show ?thesis
    by (auto simp: scan_step_def Let_def take_Suc_conv_app_nth)
next
  case space
  with assms(1,3,4,5) show ?thesis
    by (auto simp: scan_step_def Let_def take_Suc_conv_app_nth split: if_splits)
next
  case at
  with assms(1) have "at_rule_step css_text css_nocomments s = Continue s'"
    by (simp add: scan_step_def Let_def)
  from this assms(3) show ?thesis by (rule at_rule_step_copies)
next
  case rule
  with assms(1) have st: "rule_step used_classes css_text css_nocomments s = Continue s'"
    by (simp add: scan_step_def Let_def)
  have "css_nocomments ! pos s \<noteq> CHR '' ''" using rule(2) by (auto simp: isspace_def)
  with assms(6,4) have "css_nocomments ! pos s = css_text ! pos s" by auto
  with rule(2) have "\<not> isspace (css_text ! pos s)" by simp
  from st assms(2,3,5) this assms(7) show ?thesis by (rule rule_step_copies)
qed


lemma scan_loop_removed_mono:
  assumes "scan_loop used_classes css_text css_nocomments s = Inr r"
  shows "removed_count s \<le> removed_count r"
  using assms
proof (induction used_classes css_text css_nocomments s rule: scan_loop.induct)
  case (1 used_classes css_text css_nocomments s)
  show ?case
  proof (cases "pos s < length css_nocomments")
    case False
    with "1.prems" show ?thesis by (subst (asm) scan_loop.simps) auto
  next
    case True
    show ?thesis
    proof (cases "scan_step used_classes css_text css_nocomments s")
      case (Inl e)
      with True "1.prems"(1) show ?thesis by (subst (asm) scan_loop.simps) simp
    next
      case (Inr x)
      show ?thesis
      proof (cases x)
        case (Continue s')
        from True Inr Continue "1.prems"(1)
        have run: "scan_loop used_classes css_text css_nocomments s' = Inr r"
          by (subst (asm) scan_loop.simps) simp
        from "1.IH" [OF True Inr Continue run] scan_step_removed_mono [OF Inr] Continue
        show ?thesis by fastforce
      next
        case (Break s')
        from True Inr Break "1.prems"(1) have "r = s'"
          by (subst (asm) scan_loop.simps) simp
        with scan_step_removed_mono [OF Inr] Break show ?thesis by blast
      qed
    qed
  qed
qed

lemma scan_loop_copies:
  assumes "scan_loop used_classes css_text css_nocomments s = Inr r"
    and "removed_count r = removed_count s"
    and "concat (out s) = take (pos s) css_text"
    and "length css_text = length css_nocomments"
    and "\<forall>i < length css_nocomments.
           css_nocomments ! i = css_text ! i \<or> css_nocomments ! i = CHR '' ''"
    and "\<forall>j. 0 < j \<and> j < length css_text \<and> css_nocomments ! j = CHR ''{''
            \<longrightarrow> \<not> isspace (css_text ! (j - 1))"
  shows "concat (out r) = css_text"
  using assms
proof (induction used_classes css_text css_nocomments s rule: scan_loop.induct)
  case (1 used_classes css_text css_nocomments s)
  show ?case
  proof (cases "pos s < length css_nocomments")
    case False
    with "1.prems"(1) have "r = s" by (subst (asm) scan_loop.simps) auto
    with False "1.prems"(3,4) show ?thesis by simp
  next
    case True
    show ?thesis
    proof (cases "scan_step used_classes css_text css_nocomments s")
      case (Inl e)
      with True "1.prems"(1) show ?thesis by (subst (asm) scan_loop.simps) simp
    next
      case (Inr x)
      show ?thesis
      proof (cases x)
        case (Continue s')
        from True Inr Continue "1.prems"(1)
        have run: "scan_loop used_classes css_text css_nocomments s' = Inr r"
          by (subst (asm) scan_loop.simps) simp
        have "removed_count s \<le> removed_count s'"
          using scan_step_removed_mono [OF Inr] Continue by blast
        moreover have "removed_count s' \<le> removed_count r"
          using run by (rule scan_loop_removed_mono)
        ultimately have eq: "removed_count s' = removed_count s" "removed_count r = removed_count s'"
          using "1.prems"(2) by simp_all
        have inv: "concat (out s') = take (pos s') css_text"
          using Inr [unfolded Continue] eq(1) "1.prems"(3) True "1.prems"(4,5,6)
          by (rule scan_step_copies)
        from "1.IH" [OF True Inr Continue run eq(2) inv "1.prems"(4,5,6)] show ?thesis .
      next
        case (Break s')
        from True Inr Break "1.prems"(1) have "r = s'"
          by (subst (asm) scan_loop.simps) simp
        with scan_step_break [OF Inr [unfolded Break]] "1.prems"(3) show ?thesis
          by simp
      qed
    qed
  qed
qed

text \<open>
  A case in which every byte is accounted for: when no rule is removed and no opening
  brace of the comment-blanked stylesheet directly follows a whitespace character, the
  pruned output is the original stylesheet.
\<close>

lemma kept_stylesheet_unchanged:
  assumes "prune_css used_classes css_text = Inr (pruned_css, r)"
    and "report_removed_rules r = 0"
    and "\<forall>j. 0 < j \<and> j < length css_text \<and> blank_comments css_text ! j = CHR ''{''
            \<longrightarrow> \<not> isspace (css_text ! (j - 1))"
  shows "pruned_css = css_text \<and> length pruned_css = length css_text
     \<and> report_pruned_bytes r = report_original_bytes r \<and> report_bytes_saved_estimate r = 0"
proof -
  from assms(1) obtain s where
    run: "scan_loop used_classes css_text (blank_comments css_text) initial_state = Inr s"
    and p: "pruned_css = concat (out s)"
    and r: "r = make_report used_classes css_text s"
    by (auto simp: prune_css_def split: sum.splits)
  from r assms(2) have rc: "removed_count s = removed_count initial_state"
    by (simp add: make_report_def Let_def initial_state_def)
  have bl: "\<forall>i < length (blank_comments css_text).
      blank_comments css_text ! i = css_text ! i \<or> blank_comments css_text ! i = CHR '' ''"
    using blank_comments_nth by (simp add: length_blank_comments)
  have "concat (out s) = css_text"
    using run rc _ _ bl assms(3)
    by (rule scan_loop_copies) (simp_all add: initial_state_def length_blank_comments)
  with p r show ?thesis by (simp add: make_report_def Let_def)
qed

text \<open>
  C4: the script run on the stylesheet \<^verbatim>\<open>a {}\<close>. The only rule has no class token and is
  kept, no rule is removed, and yet the output \<^verbatim>\<open>a{}\<close> has 3 characters where the original
  has 4. A kept rule is emitted as the leading whitespace of its prelude, the stripped
  prelude and the body (lines 137-138 and 162): the whitespace that \<^verbatim>\<open>strip()\<close> took from
  the end of the prelude is not put back, while every other branch of the loop copies the
  original text unchanged (lines 112, 120, 124, 127 and 134).
\<close>

theorem kept_rule_loses_whitespace:
  "prune_css {} ''a {}'' =
     Inr (''a{}'',
          \<lparr>report_kept_rules = 1, report_removed_rules = 0, report_removed_details = [],
           report_used_classes_count = 0, report_pruned_bytes = 3,
           report_original_bytes = 4, report_bytes_saved_estimate = 1\<rparr>)"
  by code_simp

section \<open>Selector splitting against its specification\<close>

text \<open>
  The splitter as the specification words it: a single left-to-right walk over the
  characters that maintains the context (the active quote if any, whether the current
  character is escaped by a backslash inside a string, and the two depth counters,
  floored at zero on an unmatched close). A comma is a split point iff it is met outside
  any string with both depths zero. The prelude is cut at the split points, each piece is
  trimmed, and the non-empty pieces are returned in order.
\<close>

record split_ctx =
  in_string :: "char option"
  escaped :: bool
  paren_depth :: nat
  bracket_depth :: nat

definition spec_initial_ctx :: split_ctx where
  "spec_initial_ctx = \<lparr>in_string = None, escaped = False, paren_depth = 0, bracket_depth = 0\<rparr>"

definition spec_ctx_step :: "split_ctx \<Rightarrow> char \<Rightarrow> split_ctx" where
  "spec_ctx_step st c =
     (if escaped st then st\<lparr>escaped := False\<rparr>
      else case in_string st of
        Some q \<Rightarrow>
          if c = q then st\<lparr>in_string := None\<rparr>
          else if c = CHR 0x5C then st\<lparr>escaped := True\<rparr>
          else st
      | None \<Rightarrow>
          if c = CHR 0x22 \<or> c = CHR 0x27 then st\<lparr>in_string := Some c\<rparr>
          else if c = CHR ''('' then st\<lparr>paren_depth := paren_depth st + 1\<rparr>
          else if c = CHR '')'' then st\<lparr>paren_depth := paren_depth st - 1\<rparr>
          else if c = CHR ''['' then st\<lparr>bracket_depth := bracket_depth st + 1\<rparr>
          else if c = CHR '']'' then st\<lparr>bracket_depth := bracket_depth st - 1\<rparr>
          else st)"

definition spec_is_split :: "split_ctx \<Rightarrow> char \<Rightarrow> bool" where
  "spec_is_split st c =
     (c = CHR '','' \<and> in_string st = None \<and> \<not> escaped st
      \<and> paren_depth st = 0 \<and> bracket_depth st = 0)"

fun spec_split_marks :: "split_ctx \<Rightarrow> string \<Rightarrow> bool list" where
  "spec_split_marks st [] = []"
| "spec_split_marks st (c # cs) = spec_is_split st c # spec_split_marks (spec_ctx_step st c) cs"

fun spec_pieces :: "bool list \<Rightarrow> string \<Rightarrow> string \<Rightarrow> string list" where
  "spec_pieces (m # ms) (c # cs) cur =
     (if m then cur # spec_pieces ms cs [] else spec_pieces ms cs (cur @ [c]))"
| "spec_pieces _ _ cur = [cur]"

definition spec_split_selectors :: "string \<Rightarrow> string list" where
  "spec_split_selectors prelude =
     filter (\<lambda>p. p \<noteq> [])
       (map strip (spec_pieces (spec_split_marks spec_initial_ctx prelude) prelude []))"

lemma spec_pieces_nonempty: "spec_pieces ms cs cur \<noteq> []"
  by (induction ms cs cur rule: spec_pieces.induct) auto

lemma spec_ctx_step_outside:
  assumes "\<not> (ch = CHR 0x22 \<or> ch = CHR 0x27)" and "0 \<le> depth_paren" and "0 \<le> depth_bracket"
  shows "spec_ctx_step \<lparr>in_string = None, escaped = False,
                 paren_depth = nat depth_paren, bracket_depth = nat depth_bracket\<rparr> ch
     = \<lparr>in_string = None, escaped = False,
        paren_depth = nat (if ch = CHR ''('' then depth_paren + 1
                else if ch = CHR '')'' then max 0 (depth_paren - 1)
                else depth_paren),
        bracket_depth = nat (if ch = CHR ''('' \<or> ch = CHR '')'' then depth_bracket
                else if ch = CHR ''['' then depth_bracket + 1
                else if ch = CHR '']'' then max 0 (depth_bracket - 1)
                else depth_bracket)\<rparr>"
proof -
  consider (lp) "ch = CHR ''(''" | (rp) "ch = CHR '')''" | (lb) "ch = CHR ''[''"
    | (rb) "ch = CHR '']''"
    | (other) "ch \<noteq> CHR ''(''" "ch \<noteq> CHR '')''" "ch \<noteq> CHR ''[''" "ch \<noteq> CHR '']''"
    by blast
  then show ?thesis
  proof cases
    case lp
    with assms show ?thesis by (simp add: spec_ctx_step_def nat_add_distrib)
  next
    case rp
    with assms show ?thesis by (simp add: spec_ctx_step_def nat_diff_distrib)
  next
    case lb
    with assms show ?thesis by (simp add: spec_ctx_step_def nat_add_distrib)
  next
    case rb
    with assms show ?thesis by (simp add: spec_ctx_step_def nat_diff_distrib)
  next
    case other
    with assms show ?thesis by (simp add: spec_ctx_step_def)
  qed
qed


lemma split_loop_refines:
  assumes "0 \<le> dp" and "0 \<le> db"
  shows "split_loop in_str dp db buf parts rest =
     (parts @ map strip (butlast (spec_pieces
          (spec_split_marks \<lparr>in_string = in_str, escaped = False,
                              paren_depth = nat dp, bracket_depth = nat db\<rparr> rest) rest buf)),
      last (spec_pieces
          (spec_split_marks \<lparr>in_string = in_str, escaped = False,
                              paren_depth = nat dp, bracket_depth = nat db\<rparr> rest) rest buf))"
  using assms
proof (induction in_str dp db buf parts rest rule: split_loop.induct)
  case (1 in_str depth_paren depth_bracket buf parts)
  show ?case by simp
next
  case (2 q depth_paren depth_bracket buf parts ch rest)
  show ?case
  proof (cases "ch = q")
    case True
    with 2 show ?thesis by (simp add: spec_is_split_def spec_ctx_step_def)
  next
    case nq: False
    show ?thesis
    proof (cases "ch = CHR 0x5C")
      case False
      with nq 2 show ?thesis by (simp add: spec_is_split_def spec_ctx_step_def)
    next
      case True
      show ?thesis
      proof (cases rest)
        case Nil
        with nq True 2 show ?thesis by (simp add: spec_is_split_def spec_ctx_step_def)
      next
        case (Cons e rest')
        with nq True 2 show ?thesis by (simp add: spec_is_split_def spec_ctx_step_def)
      qed
    qed
  qed
next
  case (3 depth_paren depth_bracket buf parts ch rest)
  show ?case
  proof (cases "ch = CHR 0x22 \<or> ch = CHR 0x27")
    case True
    with 3 show ?thesis by (auto simp: spec_is_split_def spec_ctx_step_def)
  next
    case False
    define dp' where "dp' = (if ch = CHR ''('' then depth_paren + 1
                else if ch = CHR '')'' then max 0 (depth_paren - 1)
                else depth_paren)"
    define db' where "db' = (if ch = CHR ''('' \<or> ch = CHR '')'' then depth_bracket
                else if ch = CHR ''['' then depth_bracket + 1
                else if ch = CHR '']'' then max 0 (depth_bracket - 1)
                else depth_bracket)"
    have nn: "0 \<le> dp'" "0 \<le> db'" using "3.prems" by (simp_all add: dp'_def db'_def)
    let ?st = "\<lparr>in_string = None, escaped = False,
                 paren_depth = nat depth_paren, bracket_depth = nat depth_bracket\<rparr>"
    have st: "spec_ctx_step ?st ch = \<lparr>in_string = None, escaped = False,
                 paren_depth = nat dp', bracket_depth = nat db'\<rparr>"
      unfolding dp'_def db'_def using False "3.prems" by (rule spec_ctx_step_outside)
    have unf: "split_loop None depth_paren depth_bracket buf parts (ch # rest) =
        (if ch = CHR '','' \<and> dp' = 0 \<and> db' = 0
         then split_loop None dp' db' [] (parts @ [strip buf]) rest
         else split_loop None dp' db' (buf @ [ch]) parts rest)"
      using False unfolding dp'_def db'_def by (simp add: Let_def)
    show ?thesis
    proof (cases "ch = CHR '','' \<and> dp' = 0 \<and> db' = 0")
      case True
      then have sp: "spec_is_split ?st ch"
        using "3.prems" by (auto simp: spec_is_split_def dp'_def db'_def split: if_splits)
      have "split_loop None depth_paren depth_bracket buf parts (ch # rest)
          = split_loop None dp' db' [] (parts @ [strip buf]) rest"
        by (simp only: unf if_P [OF True])
      also have "\<dots> = ((parts @ [strip buf]) @ map strip (butlast (spec_pieces
          (spec_split_marks \<lparr>in_string = None, escaped = False,
                              paren_depth = nat dp', bracket_depth = nat db'\<rparr> rest) rest [])),
         last (spec_pieces
          (spec_split_marks \<lparr>in_string = None, escaped = False,
                              paren_depth = nat dp', bracket_depth = nat db'\<rparr> rest) rest []))"
        using "3.IH"(2) [OF False dp'_def db'_def True nn] .
      finally show ?thesis using sp st by (simp add: spec_pieces_nonempty)
    next
      case ns: False
      then have sp: "\<not> spec_is_split ?st ch"
        using "3.prems" by (auto simp: spec_is_split_def dp'_def db'_def split: if_splits)
      have "split_loop None depth_paren depth_bracket buf parts (ch # rest)
          = split_loop None dp' db' (buf @ [ch]) parts rest"
        by (simp only: unf if_not_P [OF ns])
      also have "\<dots> = (parts @ map strip (butlast (spec_pieces
          (spec_split_marks \<lparr>in_string = None, escaped = False,
                              paren_depth = nat dp', bracket_depth = nat db'\<rparr> rest) rest (buf @ [ch]))),
         last (spec_pieces
          (spec_split_marks \<lparr>in_string = None, escaped = False,
                              paren_depth = nat dp', bracket_depth = nat db'\<rparr> rest) rest (buf @ [ch])))"
        using "3.IH"(3) [OF False dp'_def db'_def ns nn] .
      finally show ?thesis using sp st by simp
    qed
  qed
qed


text \<open>
  C2: \<open>split_selectors\<close> splits on exactly the top-level commas: for every prelude its
  result is the list of trimmed non-empty pieces obtained by cutting the prelude at the
  commas that lie outside any quoted string (a backslash inside a string escapes the next
  character) with both depth counters zero. Splitting \<^verbatim>\<open>:not(a, b), c\<close> gives
  \<^verbatim>\<open>:not(a, b)\<close> and \<^verbatim>\<open>c\<close>.
\<close>

theorem split_selectors_refines:
  "split_selectors prelude = spec_split_selectors prelude
   \<and> split_selectors '':not(a, b), c'' = ['':not(a, b)'', ''c'']"
proof -
  let ?pcs = "spec_pieces (spec_split_marks spec_initial_ctx prelude) prelude []"
  have ne: "?pcs \<noteq> []" by (rule spec_pieces_nonempty)
  have loop: "split_loop None 0 0 [] [] prelude = (map strip (butlast ?pcs), last ?pcs)"
    using split_loop_refines [of 0 0 None "[]" "[]" prelude] by (simp add: spec_initial_ctx_def)
  have dec: "map strip ?pcs = map strip (butlast ?pcs) @ [strip (last ?pcs)]"
    using ne by (metis append_butlast_last_id list.simps(8,9) map_append)
  have e: "strip [] = []" by (simp add: strip_def)
  have "split_selectors prelude = spec_split_selectors prelude"
    unfolding split_selectors_def spec_split_selectors_def loop dec
    by (cases "last ?pcs = []") (simp_all add: e)
  moreover have "split_selectors '':not(a, b), c'' = ['':not(a, b)'', ''c'']"
    by code_simp
  ultimately show ?thesis by simp
qed

theorem split_selectors_refines_witness:
  "spec_split_marks spec_initial_ctx ''a(b,c),d'' =
     [False, False, False, False, False, False, True, False]
   \<and> spec_split_selectors ''a(b,c),d'' = [''a(b,c)'', ''d'']
   \<and> split_selectors ''a(b,c),d'' = [''a(b,c)'', ''d'']"
proof -
  have m: "spec_split_marks spec_initial_ctx ''a(b,c),d'' =
     [False, False, False, False, False, False, True, False]"
    by code_simp
  have r: "spec_split_selectors ''a(b,c),d'' = [''a(b,c)'', ''d'']"
    by code_simp
  from split_selectors_refines [of "''a(b,c),d''"] m r show ?thesis by simp
qed



section \<open>The pruner: the scan of the source tree\<close>

text \<open>
  The patterns of lines 10-17, each as its matcher at a position. None of them can match
  in two ways: a greedy run is always followed by a character outside its class (or by
  nothing), so giving characters back never helps.
  \<^item> \<^verbatim>\<open>class\s*=\s*["']([^"']+)\<close> and \<^verbatim>\<open>className\s*=\s*["']([^"']+)\<close>: \<open>match_assign\<close>;
  \<^item> \<^verbatim>\<open>getElementsByClassName\(\s*["']([^"']+)\<close>: \<open>match_get_by_class\<close>;
  \<^item> \<^verbatim>\<open>classList\.(?:add|remove|toggle)\(([^)]*)\)\<close>: \<open>match_classlist\<close>;
  \<^item> \<^verbatim>\<open>["']([^"']+)["']\<close>: \<open>match_string_literal\<close>;
  \<^item> \<^verbatim>\<open>querySelector(?:All)?\(\s*["']\.([^"')]+)\<close>: \<open>match_qs\<close>.
  \<open>strip_prefix lit s\<close> matches the literal \<open>lit\<close> at the start of \<open>s\<close> and returns the rest.
\<close>

definition is_quote :: "char \<Rightarrow> bool" where
  "is_quote c = (c = CHR 0x22 \<or> c = CHR 0x27)"

fun strip_prefix :: "string \<Rightarrow> string \<Rightarrow> string option" where
  "strip_prefix [] s = Some s"
| "strip_prefix (l # ls) [] = None"
| "strip_prefix (l # ls) (c # cs) = (if l = c then strip_prefix ls cs else None)"

definition match_quoted_value :: "string \<Rightarrow> (string \<times> string) option" where
  "match_quoted_value s =
     (case dropWhile isspace s of
        [] \<Rightarrow> None
      | q # r \<Rightarrow>
          if is_quote q then
            (let g = takeWhile (\<lambda>c. \<not> is_quote c) r in
             if g \<noteq> [] then Some (g, drop (length g) r) else None)
          else None)"

definition match_assign :: "string \<Rightarrow> string \<Rightarrow> (string \<times> nat) option" where
  "match_assign name s =
     (case strip_prefix name s of
        None \<Rightarrow> None
      | Some r1 \<Rightarrow>
          (case dropWhile isspace r1 of
             [] \<Rightarrow> None
           | c # r2 \<Rightarrow>
               if c = CHR ''='' then
                 (case match_quoted_value r2 of
                    None \<Rightarrow> None
                  | Some (g, r3) \<Rightarrow> Some (g, length s - length r3))
               else None))"

definition match_class_attr :: "string \<Rightarrow> (string \<times> nat) option" where
  "match_class_attr = match_assign ''class''"

definition match_class_name :: "string \<Rightarrow> (string \<times> nat) option" where
  "match_class_name = match_assign ''className''"

definition match_get_by_class :: "string \<Rightarrow> (string \<times> nat) option" where
  "match_get_by_class s =
     (case strip_prefix ''getElementsByClassName('' s of
        None \<Rightarrow> None
      | Some r1 \<Rightarrow>
          (case match_quoted_value r1 of
             None \<Rightarrow> None
           | Some (g, r2) \<Rightarrow> Some (g, length s - length r2)))"

definition match_classlist :: "string \<Rightarrow> (string \<times> nat) option" where
  "match_classlist s =
     (case strip_prefix ''classList.'' s of
        None \<Rightarrow> None
      | Some r1 \<Rightarrow>
          (case (case strip_prefix ''add'' r1 of
                   Some r \<Rightarrow> Some r
                 | None \<Rightarrow>
                     (case strip_prefix ''remove'' r1 of
                        Some r \<Rightarrow> Some r
                      | None \<Rightarrow> strip_prefix ''toggle'' r1)) of
             None \<Rightarrow> None
           | Some r2 \<Rightarrow>
               (case r2 of
                  [] \<Rightarrow> None
                | c # r3 \<Rightarrow>
                    if c = CHR ''('' then
                      (let g = takeWhile (\<lambda>c. c \<noteq> CHR '')'') r3 in
                       if drop (length g) r3 \<noteq> []
                       then Some (g, length s - length r3 + length g + 1)
                       else None)
                    else None)))"

definition match_string_literal :: "string \<Rightarrow> (string \<times> nat) option" where
  "match_string_literal s =
     (case s of
        [] \<Rightarrow> None
      | q # r \<Rightarrow>
          if is_quote q then
            (let g = takeWhile (\<lambda>c. \<not> is_quote c) r in
             if g \<noteq> [] \<and> drop (length g) r \<noteq> [] then Some (g, length g + 2) else None)
          else None)"

definition match_qs :: "string \<Rightarrow> (string \<times> nat) option" where
  "match_qs s =
     (case strip_prefix ''querySelector'' s of
        None \<Rightarrow> None
      | Some r1 \<Rightarrow>
          (let r2 = (case strip_prefix ''All'' r1 of Some r \<Rightarrow> r | None \<Rightarrow> r1) in
           case r2 of
             [] \<Rightarrow> None
           | c # r3 \<Rightarrow>
               if c = CHR ''('' then
                 (case dropWhile isspace r3 of
                    q # d # r4 \<Rightarrow>
                      if is_quote q \<and> d = CHR ''.'' then
                        (let g = takeWhile (\<lambda>c. \<not> is_quote c \<and> c \<noteq> CHR '')'') r4 in
                         if g \<noteq> [] then Some (g, length s - length r4 + length g) else None)
                      else None
                  | _ \<Rightarrow> None)
               else None))"

text \<open>
  \<^verbatim>\<open>re.split(r'\s+', v)\<close>, empty pieces at the ends included (called with \<open>in_sep = False\<close>
  and an empty \<open>cur\<close>), and \<^verbatim>\<open>cls_token_re.fullmatch(token)\<close> for
  \<^verbatim>\<open>-?[_a-zA-Z]+[_a-zA-Z0-9-]*\<close>.
\<close>

fun re_split_ws :: "bool \<Rightarrow> string \<Rightarrow> string \<Rightarrow> string list" where
  "re_split_ws in_sep cur [] = [cur]"
| "re_split_ws in_sep cur (c # r) =
     (if isspace c then
        (if in_sep then re_split_ws True cur r else cur # re_split_ws True [] r)
      else re_split_ws False (cur @ [c]) r)"

definition cls_token_fullmatch :: "string \<Rightarrow> bool" where
  "cls_token_fullmatch token =
     (let r = (case token of c # r \<Rightarrow> if c = CHR ''-'' then r else token | [] \<Rightarrow> token) in
      case r of [] \<Rightarrow> False | a # _ \<Rightarrow> is_ident_start a \<and> list_all is_ident_char r)"

definition ws_tokens :: "string \<Rightarrow> string list" where
  "ws_tokens v = filter cls_token_fullmatch (re_split_ws False [] v)"

text \<open>
  The tokens one file adds to \<open>used_classes\<close>, lines 29-51, in the order of the five loops.
  \<^verbatim>\<open>re.split(r'[^-_a-zA-Z0-9]', sel)[0]\<close> is the longest prefix of \<open>sel\<close> in that class.
\<close>

definition file_tokens :: "string \<Rightarrow> string list" where
  "file_tokens text =
     concat (map ws_tokens (re_finditer match_class_attr text))
     @ concat (map ws_tokens (re_finditer match_class_name text))
     @ concat (map (\<lambda>args. concat (map ws_tokens (re_finditer match_string_literal args)))
         (re_finditer match_classlist text))
     @ concat (map (\<lambda>sel. let first = takeWhile is_ident_char sel in
                            if cls_token_fullmatch first then [first] else [])
         (re_finditer match_qs text))
     @ concat (map ws_tokens (re_finditer match_get_by_class text))"

text \<open>
  The loop of lines 20-51 over the paths under \<open>ROOT\<close>. A path is given by what the loop
  asks of it: whether it is a file, its suffix, and the result of \<^verbatim>\<open>read_text\<close>, which is
  the text or an exception. \<open>lower_char\<close> is \<^verbatim>\<open>str.lower\<close> on code points below 256.
  The \<^verbatim>\<open>except Exception: continue\<close> of lines 27-28 is the \<open>Inl\<close> branch.
\<close>

datatype io_error = OSError

record tree_entry =
  entry_is_file :: bool
  entry_suffix :: string
  entry_read_text :: "io_error + string"

definition lower_char :: "char \<Rightarrow> char" where
  "lower_char c =
     (if (CHR ''A'' \<le> c \<and> c \<le> CHR ''Z'')
         \<or> (CHR 0xC0 \<le> c \<and> c \<le> CHR 0xDE \<and> c \<noteq> CHR 0xD7)
      then char_of (of_char c + (32::nat)) else c)"

definition scanned_suffixes :: "string list" where
  "scanned_suffixes = [''.html'', ''.js'', ''.ts'', ''.jsx'', ''.tsx'']"

fun scan_tree :: "tree_entry list \<Rightarrow> string set \<Rightarrow> string set" where
  "scan_tree [] used_classes = used_classes"
| "scan_tree (path # paths) used_classes =
     (if \<not> entry_is_file path then scan_tree paths used_classes
      else if map lower_char (entry_suffix path) \<notin> set scanned_suffixes
      then scan_tree paths used_classes
      else
        (case entry_read_text path of
           Inl e \<Rightarrow> scan_tree paths used_classes
         | Inr text \<Rightarrow> scan_tree paths (used_classes \<union> set (file_tokens text))))"

definition scannable :: "tree_entry \<Rightarrow> bool" where
  "scannable path =
     (entry_is_file path \<and> map lower_char (entry_suffix path) \<in> set scanned_suffixes)"

lemma scan_tree_mono: "used_classes \<subseteq> scan_tree paths used_classes"
proof (induction paths arbitrary: used_classes)
  case Nil
  show ?case by simp
next
  case (Cons p ps)
  have a: "used_classes \<subseteq> scan_tree ps used_classes" by (rule Cons.IH)
  have b: "used_classes \<union> T \<subseteq> scan_tree ps (used_classes \<union> T)" for T by (rule Cons.IH)
  from b have c: "used_classes \<subseteq> scan_tree ps (used_classes \<union> T)" for T by blast
  show ?case using a c by (simp split: sum.splits)
qed

lemma scan_tree_append:
  "scan_tree (xs @ ys) used_classes = scan_tree ys (scan_tree xs used_classes)"
  by (induction xs arbitrary: used_classes) (auto split: sum.splits)

lemma scan_tree_collects:
  assumes "path \<in> set paths" and "scannable path" and "entry_read_text path = Inr text"
  shows "set (file_tokens text) \<subseteq> scan_tree paths used_classes"
  using assms
proof (induction paths arbitrary: used_classes)
  case Nil
  then show ?case by simp
next
  case (Cons p ps)
  show ?case
  proof (cases "path = p")
    case True
    with Cons.prems scan_tree_mono [of "used_classes \<union> set (file_tokens text)" ps]
    show ?thesis by (simp add: scannable_def)
  next
    case False
    with Cons.prems have "path \<in> set ps" by simp
    from Cons.IH [OF this Cons.prems(2,3)] show ?thesis
      by (simp split: sum.splits)
  qed
qed

text \<open>
  C8: a file whose read fails is skipped and the scan goes on: the result is the one of
  the scan without that file, whatever comes before and after it. The scan returns a set
  in every case (no exception leaves the loop), it keeps what was collected before, and it
  contains every token of every scanned file that could be read.
\<close>

theorem read_failure_skipped:
  "(entry_read_text bad = Inl e \<longrightarrow>
      scan_tree (before @ bad # after) used_classes = scan_tree (before @ after) used_classes)
   \<and> (path \<in> set paths \<and> scannable path \<and> entry_read_text path = Inr text \<longrightarrow>
        set (file_tokens text) \<subseteq> scan_tree paths used_classes)
   \<and> used_classes \<subseteq> scan_tree paths used_classes"
proof -
  have "scan_tree (before @ bad # after) used_classes = scan_tree (before @ after) used_classes"
    if "entry_read_text bad = Inl e"
    using that by (simp add: scan_tree_append)
  then show ?thesis using scan_tree_collects scan_tree_mono by blast
qed

theorem read_failure_skipped_witness:
  "entry_read_text \<lparr>entry_is_file = True, entry_suffix = ''.JS'',
       entry_read_text = Inl OSError\<rparr> = Inl OSError
   \<and> scan_tree
        ([] @ \<lparr>entry_is_file = True, entry_suffix = ''.JS'', entry_read_text = Inl OSError\<rparr>
           # [\<lparr>entry_is_file = True, entry_suffix = ''.html'',
                entry_read_text = Inr ''<p class='a b'>''\<rparr>]) {}
       = scan_tree
          ([] @ [\<lparr>entry_is_file = True, entry_suffix = ''.html'',
                   entry_read_text = Inr ''<p class='a b'>''\<rparr>]) {}
   \<and> scan_tree
        [\<lparr>entry_is_file = True, entry_suffix = ''.JS'', entry_read_text = Inl OSError\<rparr>,
         \<lparr>entry_is_file = True, entry_suffix = ''.html'',
            entry_read_text = Inr ''<p class='a b'>''\<rparr>] {}
       = {''a'', ''b''}
   \<and> set (file_tokens ''<p class='a b'>'')
       \<subseteq> scan_tree
          [\<lparr>entry_is_file = True, entry_suffix = ''.JS'', entry_read_text = Inl OSError\<rparr>,
           \<lparr>entry_is_file = True, entry_suffix = ''.html'',
              entry_read_text = Inr ''<p class='a b'>''\<rparr>] {}"
proof -
  let ?bad = "\<lparr>entry_is_file = True, entry_suffix = ''.JS'', entry_read_text = Inl OSError\<rparr>"
  let ?good = "\<lparr>entry_is_file = True, entry_suffix = ''.html'',
                 entry_read_text = Inr ''<p class='a b'>''\<rparr>"
  have h1: "entry_read_text ?bad = Inl OSError" by simp
  have h2: "?good \<in> set [?bad, ?good] \<and> scannable ?good
      \<and> entry_read_text ?good = Inr ''<p class='a b'>''"
    by (simp add: scannable_def scanned_suffixes_def lower_char_def)
  have run: "scan_tree [?bad, ?good] {} = {''a'', ''b''}" by code_simp
  note T = read_failure_skipped [of ?bad OSError "[]" "[?good]" "{}" ?good "[?bad, ?good]"
      "''<p class='a b'>''"]
  from T h1 have c2: "scan_tree ([] @ ?bad # [?good]) {} = scan_tree ([] @ [?good]) {}"
    by (rule conjunct1 [THEN mp])
  from T h2 have c4: "set (file_tokens ''<p class='a b'>'') \<subseteq> scan_tree [?bad, ?good] {}"
    by (rule conjunct2 [THEN conjunct1, THEN mp])
  from h1 c2 run c4 show ?thesis by (intro conjI)
qed

section \<open>The organizer (css_analyzer.py)\<close>

text \<open>
  The values of the rules dictionary: the first \<^verbatim>\<open>extract_css_rules\<close> maps a selector to
  a list of declarations, the second maps a class name to one string of properties.
  \<^verbatim>\<open>merge_duplicate_selectors\<close> takes either: \<open>decls_len\<close> is \<^verbatim>\<open>len\<close>, and \<open>decls_items\<close>
  is what \<^verbatim>\<open>list.extend\<close> appends, the elements of a list or the characters of a string,
  each as a one-character string.
\<close>

datatype decls = DeclList "string list" | DeclStr string

fun decls_len :: "decls \<Rightarrow> nat" where
  "decls_len (DeclList ds) = length ds"
| "decls_len (DeclStr v) = length v"

fun decls_items :: "decls \<Rightarrow> string list" where
  "decls_items (DeclList ds) = ds"
| "decls_items (DeclStr v) = map (\<lambda>c. [c]) v"

text \<open>
  A \<^verbatim>\<open>dict\<close> is an association list in insertion order: \<open>dict_set\<close> overwrites the value
  of a key in place or appends a new key. \<open>dict_extend\<close> is
  \<^verbatim>\<open>d[k].extend(xs)\<close> on a \<^verbatim>\<open>defaultdict(list)\<close>.
\<close>

fun dict_get :: "('k \<times> 'v) list \<Rightarrow> 'k \<Rightarrow> 'v option" where
  "dict_get [] k = None"
| "dict_get ((k', v) # d) k = (if k' = k then Some v else dict_get d k)"

fun dict_set :: "('k \<times> 'v) list \<Rightarrow> 'k \<Rightarrow> 'v \<Rightarrow> ('k \<times> 'v) list" where
  "dict_set [] k v = [(k, v)]"
| "dict_set ((k', v') # d) k v = (if k' = k then (k, v) # d else (k', v') # dict_set d k v)"

definition dict_extend :: "(string \<times> string list) list \<Rightarrow> string \<Rightarrow> string list
    \<Rightarrow> (string \<times> string list) list" where
  "dict_extend d k xs =
     dict_set d k ((case dict_get d k of None \<Rightarrow> [] | Some ys \<Rightarrow> ys) @ xs)"

text \<open>
  \<^verbatim>\<open>s.split(sep)\<close> for a one-character separator (called with an empty \<open>cur\<close>),
  \<^verbatim>\<open>sub in s\<close>, \<^verbatim>\<open>s.startswith(p)\<close>, \<^verbatim>\<open>str.upper\<close> on ASCII letters and \<^verbatim>\<open>sep.join(parts)\<close>.
\<close>

fun str_split :: "char \<Rightarrow> string \<Rightarrow> string \<Rightarrow> string list" where
  "str_split sep cur [] = [cur]"
| "str_split sep cur (c # r) =
     (if c = sep then cur # str_split sep [] r else str_split sep (cur @ [c]) r)"

fun str_contains :: "string \<Rightarrow> string \<Rightarrow> bool" where
  "str_contains sub [] = (sub = [])"
| "str_contains sub (c # r) = (strip_prefix sub (c # r) \<noteq> None \<or> str_contains sub r)"

definition startswith :: "string \<Rightarrow> string \<Rightarrow> bool" where
  "startswith s p = (strip_prefix p s \<noteq> None)"

definition upper_char :: "char \<Rightarrow> char" where
  "upper_char c =
     (if CHR ''a'' \<le> c \<and> c \<le> CHR ''z'' then char_of (of_char c - (32::nat)) else c)"

fun str_join :: "string \<Rightarrow> string list \<Rightarrow> string" where
  "str_join sep [] = []"
| "str_join sep [p] = p"
| "str_join sep (p # q # ps) = p @ sep @ str_join sep (q # ps)"

text \<open>
  The first definition of \<^verbatim>\<open>extract_css_rules\<close> (lines 7-22), with the pattern
  \<^verbatim>\<open>([^{]+)\s*{\s*([^}]+)\s*}\<close> of \<^verbatim>\<open>re.findall\<close>. Group 1 takes the longest run without
  \<open>{\<close>, which must be followed by \<open>{\<close>; a shorter group 1 reaches the same brace and so the
  same body. After the brace \<^verbatim>\<open>\s*\<close> takes the whitespace run \<open>w\<close> and group 2 the longest
  run without \<open>}\<close>, which must be followed by \<open>}\<close>; when that run is empty, \<^verbatim>\<open>\s*\<close> gives
  back its last character to group 2.
\<close>

definition match_generic_rule :: "string \<Rightarrow> ((string \<times> string) \<times> nat) option" where
  "match_generic_rule s =
     (let g1 = takeWhile (\<lambda>c. c \<noteq> CHR ''{'') s in
      if g1 = [] then None
      else
        (case drop (length g1) s of
           [] \<Rightarrow> None
         | _ # b \<Rightarrow>
             (let w = takeWhile isspace b;
                  b2 = drop (length w) b;
                  g2 = takeWhile (\<lambda>c. c \<noteq> CHR ''}'') b2
              in if drop (length g2) b2 = [] then None
                 else if g2 \<noteq> [] then Some ((g1, g2), length s - length b2 + length g2 + 1)
                 else if w \<noteq> [] then Some ((g1, [last w]), length s - length b2 + 1)
                 else None)))"

definition extract_css_rules_first :: "string \<Rightarrow> (string \<times> decls) list" where
  "extract_css_rules_first css_content =
     map (\<lambda>(k, ds). (k, DeclList ds))
       (foldl
          (\<lambda>rules_dict (selector, declarations).
             dict_extend rules_dict (strip selector)
               (filter (\<lambda>d. d \<noteq> []) (map strip (str_split CHR '';'' [] declarations))))
          [] (re_finditer match_generic_rule css_content))"

text \<open>
  The second definition of \<^verbatim>\<open>extract_css_rules\<close> (lines 146-158), with the pattern
  \<^verbatim>\<open>\.([a-zA-Z0-9_-]+)\s*{([^}]+)}\<close> of \<^verbatim>\<open>re.finditer\<close>; a later rule of the same class
  overwrites the earlier one.
\<close>

definition match_class_rule :: "string \<Rightarrow> ((string \<times> string) \<times> nat) option" where
  "match_class_rule s =
     (case s of
        [] \<Rightarrow> None
      | d # r \<Rightarrow>
          if d \<noteq> CHR ''.'' then None
          else
            (let g1 = takeWhile is_ident_char r;
                 r1 = dropWhile isspace (drop (length g1) r)
             in if g1 = [] then None
                else
                  (case r1 of
                     [] \<Rightarrow> None
                   | ob # b \<Rightarrow>
                       if ob \<noteq> CHR ''{'' then None
                       else
                         (let g2 = takeWhile (\<lambda>c. c \<noteq> CHR ''}'') b in
                          if g2 \<noteq> [] \<and> drop (length g2) b \<noteq> []
                          then Some ((g1, g2), length s - length b + length g2 + 1)
                          else None))))"

definition extract_css_rules_second :: "string \<Rightarrow> (string \<times> decls) list" where
  "extract_css_rules_second content =
     foldl (\<lambda>rules (class_name, css_properties).
              dict_set rules class_name (DeclStr (strip css_properties)))
       [] (re_finditer match_class_rule content)"

text \<open>
  \<^verbatim>\<open>merge_duplicate_selectors\<close> (lines 24-37; the message printed for a duplicate is not
  modelled), \<^verbatim>\<open>organize_selectors\<close> (lines 39-62) and \<^verbatim>\<open>generate_organized_css\<close>
  (lines 64-94).
\<close>

definition merge_duplicate_selectors :: "(string \<times> decls) list \<Rightarrow> (string \<times> string list) list" where
  "merge_duplicate_selectors rules_dict =
     foldl (\<lambda>merged_selectors (selector, declarations).
              (let clean_selector = strip selector in
               if decls_len declarations > 0
               then dict_extend merged_selectors clean_selector (decls_items declarations)
               else merged_selectors))
       [] rules_dict"

definition selector_category :: "string \<Rightarrow> string" where
  "selector_category selector =
     (if str_contains ''@keyframes'' selector then ''keyframes''
      else if startswith selector ''.'' then ''classes''
      else if startswith selector ''#'' then ''ids''
      else if CHR '':'' \<in> set selector then ''pseudo''
      else if CHR ''['' \<in> set selector then ''attributes''
      else if CHR ''>'' \<in> set selector \<or> CHR ''+'' \<in> set selector \<or> CHR ''~'' \<in> set selector
      then ''combinators''
      else ''elements'')"

definition organize_selectors ::
  "(string \<times> string list) list \<Rightarrow> (string \<times> (string \<times> string list) list) list" where
  "organize_selectors merged_selectors =
     foldl (\<lambda>grouped_selectors (selector, declarations).
              (let category = selector_category selector in
               dict_set grouped_selectors category
                 (dict_set (case dict_get grouped_selectors category of None \<Rightarrow> [] | Some g \<Rightarrow> g)
                    selector declarations)))
       [] merged_selectors"

definition category_order :: "string list" where
  "category_order =
     [''keyframes'', ''elements'', ''classes'', ''ids'', ''pseudo'', ''attributes'', ''combinators'']"

definition render_rule :: "string \<Rightarrow> string list \<Rightarrow> string list" where
  "render_rule selector declarations =
     [selector @ '' {''] @ map (\<lambda>decl. ''    '' @ decl @ '';'') (sort declarations) @ [''}'', '''']"

definition render_category ::
  "(string \<times> (string \<times> string list) list) list \<Rightarrow> string \<Rightarrow> string list" where
  "render_category grouped_selectors category =
     (case dict_get grouped_selectors category of
        None \<Rightarrow> []
      | Some g \<Rightarrow>
          if g = [] then []
          else [[CHR 0x0A] @ ''/* '' @ map upper_char category @ '' */'']
               @ concat (map (\<lambda>selector.
                     render_rule selector (case dict_get g selector of None \<Rightarrow> [] | Some ds \<Rightarrow> ds))
                   (sort (map fst g))))"

definition generate_organized_css ::
  "(string \<times> (string \<times> string list) list) list \<Rightarrow> string" where
  "generate_organized_css grouped_selectors =
     str_join [CHR 0x0A] (concat (map (render_category grouped_selectors) category_order))"

text \<open>
  The module's top-level \<^verbatim>\<open>def\<close> statements in the order of the file; each binds its name
  in the module's globals when it is executed, a later one replacing an earlier binding.
  A call looks the name up when the call is made, after the module has been loaded.
\<close>

datatype py_function =
    Extract_css_rules_first
  | Merge_duplicate_selectors
  | Organize_selectors
  | Generate_organized_css
  | Extract_css_from_html
  | Write_organized_css
  | Organize_css_file
  | Extract_css_rules_second
  | Compare_css_files

definition module_defs :: "(string \<times> py_function) list" where
  "module_defs =
     [(''extract_css_rules'', Extract_css_rules_first),
      (''merge_duplicate_selectors'', Merge_duplicate_selectors),
      (''organize_selectors'', Organize_selectors),
      (''generate_organized_css'', Generate_organized_css),
      (''extract_css_from_html'', Extract_css_from_html),
      (''write_organized_css'', Write_organized_css),
      (''organize_css_file'', Organize_css_file),
      (''extract_css_rules'', Extract_css_rules_second),
      (''compare_css_files'', Compare_css_files)]"

definition module_globals :: "string \<Rightarrow> py_function option" where
  "module_globals = foldl (\<lambda>g (name, f). g(name \<mapsto> f)) Map.empty module_defs"

datatype call_error = NameError | TypeError

text \<open>
  Calling what the name \<^verbatim>\<open>extract_css_rules\<close> is bound to with one string. The other
  functions of the module are bound once; calling one of them here with a string is not
  what \<^verbatim>\<open>organize_css_file\<close> does, and is left as an error.
\<close>

definition call_extract :: "py_function \<Rightarrow> string \<Rightarrow> call_error + (string \<times> decls) list" where
  "call_extract f css_content =
     (case f of
        Extract_css_rules_first \<Rightarrow> Inr (extract_css_rules_first css_content)
      | Extract_css_rules_second \<Rightarrow> Inr (extract_css_rules_second css_content)
      | _ \<Rightarrow> Inl TypeError)"

text \<open>
  \<^verbatim>\<open>organize_css_file\<close>, lines 125-135: from the CSS of the style block to the organized
  CSS. Reading the HTML file and writing it back (lines 123 and 138) are not modelled.
\<close>

definition organize_css :: "string \<Rightarrow> call_error + string" where
  "organize_css css_content =
     (case module_globals ''extract_css_rules'' of
        None \<Rightarrow> Inl NameError
      | Some f \<Rightarrow>
          (case call_extract f css_content of
             Inl e \<Rightarrow> Inl e
           | Inr rules_dict \<Rightarrow>
               (let merged_selectors = merge_duplicate_selectors rules_dict;
                    grouped_selectors = organize_selectors merged_selectors
                in Inr (generate_organized_css grouped_selectors))))"

lemma module_globals_extract:
  "module_globals ''extract_css_rules'' = Some Extract_css_rules_second"
  by (simp add: module_globals_def module_defs_def)

text \<open>
  C7: in \<^verbatim>\<open>organize_css_file\<close> the name \<^verbatim>\<open>extract_css_rules\<close> is bound to the second, class-only
  definition; the organizer is the pipeline built on that extractor, for every input, and
  the first, generic definition plays no part in it. The two pipelines differ: on
  \<^verbatim>\<open>p{a:b}\<close> the class-only one finds no rule.
\<close>

theorem organizer_uses_class_only_extractor:
  "module_globals ''extract_css_rules'' = Some Extract_css_rules_second
   \<and> organize_css css_content =
       Inr (generate_organized_css (organize_selectors (merge_duplicate_selectors
              (extract_css_rules_second css_content))))
   \<and> organize_css ''p{a:b}'' = Inr []
   \<and> generate_organized_css (organize_selectors (merge_duplicate_selectors
          (extract_css_rules_first ''p{a:b}'')))
       = [CHR 0x0A] @ ''/* ELEMENTS */'' @ [CHR 0x0A] @ ''p {'' @ [CHR 0x0A] @ ''    a:b;''
           @ [CHR 0x0A] @ ''}'' @ [CHR 0x0A]"
proof -
  have run: "organize_css css_content =
       Inr (generate_organized_css (organize_selectors (merge_duplicate_selectors
              (extract_css_rules_second css_content))))" for css_content
    by (simp add: organize_css_def module_globals_extract call_extract_def)
  have second: "generate_organized_css (organize_selectors (merge_duplicate_selectors
          (extract_css_rules_second ''p{a:b}''))) = []"
    by code_simp
  have first: "generate_organized_css (organize_selectors (merge_duplicate_selectors
          (extract_css_rules_first ''p{a:b}'')))
       = [CHR 0x0A] @ ''/* ELEMENTS */'' @ [CHR 0x0A] @ ''p {'' @ [CHR 0x0A] @ ''    a:b;''
           @ [CHR 0x0A] @ ''}'' @ [CHR 0x0A]"
    by code_simp
  from module_globals_extract run [of css_content] run [of "''p{a:b}''"] second first
  show ?thesis by (simp only: simp_thms)
qed

theorem organizer_uses_class_only_extractor_witness:
  "organize_css ''.btn{color:red}'' =
     Inr (generate_organized_css (organize_selectors (merge_duplicate_selectors
            (extract_css_rules_second ''.btn{color:red}''))))
   \<and> extract_css_rules_second ''.btn{color:red}'' = [(''btn'', DeclStr ''color:red'')]
   \<and> extract_css_rules_first ''.btn{color:red}'' = [(''.btn'', DeclList [''color:red''])]"
proof -
  have a: "extract_css_rules_second ''.btn{color:red}'' = [(''btn'', DeclStr ''color:red'')]"
    by code_simp
  have b: "extract_css_rules_first ''.btn{color:red}'' = [(''.btn'', DeclList [''color:red''])]"
    by code_simp
  from organizer_uses_class_only_extractor [of "''.btn{color:red}''"] a b
  show ?thesis by (simp only: simp_thms)
qed

text \<open>
  C6: the organizer run on \<^verbatim>\<open>.btn{color:red}\<close> and then on its own output. The first run
  emits the class under \<open>ELEMENTS\<close> without its dot, with one declaration per character of
  the properties string (the class-only extractor returns a string where the pipeline
  extends a list). The second run finds no \<^verbatim>\<open>.class { ... }\<close> rule in that text and emits
  the empty string, so the two outputs differ.
\<close>

theorem organizer_not_idempotent:
  "organize_css ''.btn{color:red}'' =
     Inr ([CHR 0x0A] @ ''/* ELEMENTS */'' @ [CHR 0x0A] @ ''btn {'' @ [CHR 0x0A]
          @ ''    :;'' @ [CHR 0x0A] @ ''    c;'' @ [CHR 0x0A] @ ''    d;'' @ [CHR 0x0A]
          @ ''    e;'' @ [CHR 0x0A] @ ''    l;'' @ [CHR 0x0A] @ ''    o;'' @ [CHR 0x0A]
          @ ''    o;'' @ [CHR 0x0A] @ ''    r;'' @ [CHR 0x0A] @ ''    r;'' @ [CHR 0x0A]
          @ ''}'' @ [CHR 0x0A])
   \<and> organize_css
        ([CHR 0x0A] @ ''/* ELEMENTS */'' @ [CHR 0x0A] @ ''btn {'' @ [CHR 0x0A]
          @ ''    :;'' @ [CHR 0x0A] @ ''    c;'' @ [CHR 0x0A] @ ''    d;'' @ [CHR 0x0A]
          @ ''    e;'' @ [CHR 0x0A] @ ''    l;'' @ [CHR 0x0A] @ ''    o;'' @ [CHR 0x0A]
          @ ''    o;'' @ [CHR 0x0A] @ ''    r;'' @ [CHR 0x0A] @ ''    r;'' @ [CHR 0x0A]
          @ ''}'' @ [CHR 0x0A])
       = Inr []"
proof -
  let ?once = "[CHR 0x0A] @ ''/* ELEMENTS */'' @ [CHR 0x0A] @ ''btn {'' @ [CHR 0x0A]
          @ ''    :;'' @ [CHR 0x0A] @ ''    c;'' @ [CHR 0x0A] @ ''    d;'' @ [CHR 0x0A]
          @ ''    e;'' @ [CHR 0x0A] @ ''    l;'' @ [CHR 0x0A] @ ''    o;'' @ [CHR 0x0A]
          @ ''    o;'' @ [CHR 0x0A] @ ''    r;'' @ [CHR 0x0A] @ ''    r;'' @ [CHR 0x0A]
          @ ''}'' @ [CHR 0x0A]"
  have run: "organize_css css_content =
       Inr (generate_organized_css (organize_selectors (merge_duplicate_selectors
              (extract_css_rules_second css_content))))" for css_content
    by (simp add: organize_css_def module_globals_extract call_extract_def)
  have a: "generate_organized_css (organize_selectors (merge_duplicate_selectors
              (extract_css_rules_second ''.btn{color:red}''))) = ?once"
    by code_simp
  have b: "generate_organized_css (organize_selectors (merge_duplicate_selectors
              (extract_css_rules_second ?once))) = []"
    by code_simp
  show ?thesis unfolding run a b by (simp only: simp_thms)
qed

text \<open>
  The pipeline built on the first, generic extractor is not idempotent either: run on its
  own output it takes the category comment for part of the selector.
\<close>

lemma generic_organizer_twice:
  "generate_organized_css (organize_selectors (merge_duplicate_selectors
      (extract_css_rules_first ''.btn{color:red}'')))
     = [CHR 0x0A] @ ''/* CLASSES */'' @ [CHR 0x0A] @ ''.btn {'' @ [CHR 0x0A]
       @ ''    color:red;'' @ [CHR 0x0A] @ ''}'' @ [CHR 0x0A]
   \<and> generate_organized_css (organize_selectors (merge_duplicate_selectors
      (extract_css_rules_first
         ([CHR 0x0A] @ ''/* CLASSES */'' @ [CHR 0x0A] @ ''.btn {'' @ [CHR 0x0A]
          @ ''    color:red;'' @ [CHR 0x0A] @ ''}'' @ [CHR 0x0A]))))
     = [CHR 0x0A] @ ''/* ELEMENTS */'' @ [CHR 0x0A] @ ''/* CLASSES */'' @ [CHR 0x0A]
       @ ''.btn {'' @ [CHR 0x0A] @ ''    color:red;'' @ [CHR 0x0A] @ ''}'' @ [CHR 0x0A]"
  by code_simp

end
